theory Spec2Isabelle
  imports Main
begin

chapter \<open>Definitions\<close>

section \<open>Errors\<close>

text \<open>
  A Go \<open>error\<close> value is an interface that may be \<open>nil\<close>; it is modelled as
  \<open>error option\<close> with \<open>None\<close> for \<open>nil\<close>. The distinguished error values the
  code compares against by identity are constructors of their own; every other error
  carries its message.
\<close>

datatype error =
    ErrHelp
  | ErrSilent
  | ErrTerminateAgent
  | ErrDead
  | ErrUnauthorized
  | NotFoundError string
  | UpgradeReadyError string
  | FatalError string
  | ErrStillAlive
  | Errorf string

text \<open>
  The \<open>Error()\<close> method: the text \<open>%v\<close> prints for an error. Only \<open>ErrSilent\<close> is
  declared in the sources; the texts of the other distinguished errors are those of
  their packages, and no property below depends on them.
\<close>

fun Error :: "error \<Rightarrow> string" where
  "Error ErrHelp = ''flag: help requested''"
| "Error ErrSilent = ''cmd: error out silently''"
| "Error ErrTerminateAgent = ''agent should be terminated''"
| "Error ErrDead = ''agent entity is dead''"
| "Error ErrUnauthorized = ''unauthorized access''"
| "Error (NotFoundError s) = s"
| "Error (UpgradeReadyError s) = ''must restart: an agent upgrade is available: '' @ s"
| "Error (FatalError s) = s"
| "Error ErrStillAlive = ''tomb: still alive''"
| "Error (Errorf s) = s"

section \<open>The task runner: \<open>runTasks\<close>\<close>

text \<open>
  \<open>isUpgraded\<close> is the type assertion of an error to \<open>UpgradeReadyError\<close>; \<open>importance\<close> is the
  switch of the source, whose \<open>default\<close> case is tried last wherever it is written.
\<close>

fun isUpgraded :: "error option \<Rightarrow> bool" where
  "isUpgraded (Some (UpgradeReadyError _)) = True"
| "isUpgraded _ = False"

definition importance :: "error option \<Rightarrow> int" where
  "importance e =
     (if e = None then 0
      else if isUpgraded e then 2
      else if e = Some ErrTerminateAgent then 3
      else 1)"

definition moreImportant :: "error option \<Rightarrow> error option \<Rightarrow> bool" where
  "moreImportant err0 err1 = (importance err0 > importance err1)"

definition isFatal :: "error option \<Rightarrow> bool" where
  "isFatal e =
     (if e = Some ErrTerminateAgent \<or> isUpgraded e then True
      else (case e of Some (FatalError _) \<Rightarrow> True | _ \<Rightarrow> False))"

text \<open>
  A task is an interface with \<open>Stop\<close>, \<open>Wait\<close> and \<open>String\<close>; a run of \<open>runTasks\<close> sees
  a task only through what these calls return, so a task is the record of its answers.
  Both calls are taken to return: \<open>Stop\<close> at once, \<open>Wait\<close> once the task has finished
  or has been stopped.
\<close>

record task =
  Wait_result :: "error option"
  Stop_result :: "error option"
  String :: string

record errInfo =
  index :: int
  err :: "error option"

text \<open>
  The goroutine of task \<open>i\<close> sends \<open>errInfo{i, t.Wait()}\<close> on \<open>done\<close>. What each
  \<open>select\<close> of the waiting loop receives, in order, is the schedule of the run: a value
  from \<open>done\<close>, or a value from \<open>stop\<close>.
\<close>

datatype select_event = Done errInfo | Stop_signal

fun sends :: "nat \<Rightarrow> task list \<Rightarrow> errInfo list" where
  "sends i [] = []"
| "sends i (t # ts) = \<lparr>index = int i, err = Wait_result t\<rparr> # sends (Suc i) ts"

fun received :: "select_event list \<Rightarrow> errInfo list" where
  "received [] = []"
| "received (Done info # evs) = info # received evs"
| "received (Stop_signal # evs) = received evs"

text \<open>A schedule the tasks can produce: every value received from \<open>done\<close> was sent by
  the goroutine of one task, and no goroutine sends twice.\<close>

definition schedule_ok :: "task list \<Rightarrow> select_event list \<Rightarrow> bool" where
  "schedule_ok tasks evs =
     (distinct (map index (received evs)) \<and> list_all (\<lambda>info. info \<in> set (sends 0 tasks)) (received evs))"

text \<open>
  The loop \<open>waiting\<close>: one \<open>select\<close> for each task. It leaves with the first received
  error, or at a value on \<open>stop\<close>, or after as many receptions as there are tasks. When
  the schedule has no further event the \<open>select\<close> blocks for ever: \<open>None\<close>.
\<close>

fun waiting :: "nat \<Rightarrow> select_event list \<Rightarrow> errInfo option" where
  "waiting 0 evs = Some \<lparr>index = -1, err = None\<rparr>"
| "waiting (Suc n) [] = None"
| "waiting (Suc n) (Done info # evs) = (if err info \<noteq> None then Some info else waiting n evs)"
| "waiting (Suc n) (Stop_signal # evs) = Some \<lparr>index = -1, err = None\<rparr>"

text \<open>The second loop stops the tasks in order; the calls made are recorded.\<close>

fun stopping :: "nat \<Rightarrow> task list \<Rightarrow> errInfo \<Rightarrow> nat list \<Rightarrow> errInfo \<times> nat list" where
  "stopping i [] chosen calls = (chosen, calls)"
| "stopping i (t # ts) chosen calls =
     (let e = Stop_result t in
      stopping (Suc i) ts
        (if isUpgraded e \<or> e \<noteq> None \<and> err chosen = None then \<lparr>index = int i, err = e\<rparr> else chosen)
        (calls @ [i]))"

text \<open>The third loop waits for every task but the chosen one and logs its error.\<close>

fun discarding :: "nat \<Rightarrow> task list \<Rightarrow> errInfo \<Rightarrow> string list" where
  "discarding i [] chosen = []"
| "discarding i (t # ts) chosen =
     (if int i = index chosen then []
      else (case Wait_result t of
              None \<Rightarrow> []
            | Some e \<Rightarrow> [''cmd/jujud: '' @ String t @ '': '' @ Error e]))
     @ discarding (Suc i) ts chosen"

record run_result =
  returned :: "error option"
  stop_calls :: "nat list"
  log_lines :: "string list"

definition runTasks :: "select_event list \<Rightarrow> task list \<Rightarrow> run_result option" where
  "runTasks evs tasks =
     (case waiting (length tasks) evs of
        None \<Rightarrow> None
      | Some chosen \<Rightarrow>
          (case stopping 0 tasks chosen [] of
             (chosen', calls) \<Rightarrow>
               Some \<lparr>returned = err chosen', stop_calls = calls,
                     log_lines = discarding 0 tasks chosen'\<rparr>))"

text \<open>The exit causes a run observes: the one the waiting loop left with, and what each
  \<open>Stop\<close> returned.\<close>

definition observed :: "select_event list \<Rightarrow> task list \<Rightarrow> error option list" where
  "observed evs tasks =
     (case waiting (length tasks) evs of None \<Rightarrow> [] | Some c \<Rightarrow> [err c]) @ map Stop_result tasks"

text \<open>An event that is the successful completion of a task.\<close>

fun nil_done :: "select_event \<Rightarrow> bool" where
  "nil_done (Done info) = (err info = None)"
| "nil_done Stop_signal = False"

text \<open>Tasks used to run the definitions.\<close>

definition task_ok :: task where
  "task_ok = \<lparr>Wait_result = None, Stop_result = None, String = ''ok''\<rparr>"

definition task_boom :: task where
  "task_boom = \<lparr>Wait_result = Some (Errorf ''boom''), Stop_result = Some (Errorf ''boom''),
                 String = ''boom''\<rparr>"

definition task_finished :: task where
  "task_finished = \<lparr>Wait_result = Some (Errorf ''boom''), Stop_result = None,
                     String = ''finished''\<rparr>"

definition task_terminate :: task where
  "task_terminate = \<lparr>Wait_result = Some ErrTerminateAgent, Stop_result = Some ErrTerminateAgent,
                      String = ''machiner''\<rparr>"

definition task_upgrade :: task where
  "task_upgrade = \<lparr>Wait_result = Some (UpgradeReadyError ''1.2.3''),
                    Stop_result = Some (UpgradeReadyError ''1.2.3''), String = ''upgrader''\<rparr>"

section \<open>Opening the state: \<open>openState\<close> with a password file\<close>

text \<open>
  The functions of this section are those of the agent file that has \<open>runTasks\<close> and
  \<open>RunLoop\<close>. Everything outside the process that they consult is a field of \<open>world\<close>:
  the password file, the outcome of the next \<open>trivial.RandomPassword\<close> and
  \<open>ioutil.WriteFile\<close>, the state server with the password it accepts for the entity,
  the entity's record, and what \<open>a.RunOnce\<close> returns. A connection is a number; the
  connections that are open, and the passwords \<open>state.Open\<close> was tried with, are
  recorded. The path of the password file is fixed by \<open>DataDir\<close> and the entity name,
  which do not change during a run, so the file is a field of its own.
\<close>

datatype life = Alive | Dying | Dead

datatype read_result = NotExist | Content string | ReadError error

record Info =
  Addrs :: "string list"
  EntityName :: string
  Password :: string

record AgentConf =
  DataDir :: string
  StateInfo :: Info
  InitialPassword :: string

record world =
  pwfile :: read_result
  write_error :: "error option"
  random :: "error + string"
  server_error :: "error option"
  entity_password :: string
  entity :: "error + life"
  set_password_error :: "error option"
  RunOnce_result :: "error option option"
  open_conns :: "nat list"
  next_conn :: nat
  tried :: "string list"

text \<open>
  Modelled from the spec: \<open>state.Open\<close> is not among the sources. Following the
  description of authentication, it fails with the server's error when the server has
  one, grants a fresh connection to the password the state holds for the entity, and
  answers \<open>ErrUnauthorized\<close> to every other password.
\<close>

definition state_Open :: "Info \<Rightarrow> world \<Rightarrow> world \<times> (error + nat)" where
  "state_Open info w =
     (let w1 = w\<lparr>tried := tried w @ [Password info]\<rparr> in
      case server_error w of
        Some e \<Rightarrow> (w1, Inl e)
      | None \<Rightarrow>
          if Password info = entity_password w
          then (w1\<lparr>open_conns := next_conn w # open_conns w, next_conn := Suc (next_conn w)\<rparr>,
                Inr (next_conn w))
          else (w1, Inl ErrUnauthorized))"

definition Close :: "nat \<Rightarrow> world \<Rightarrow> world" where
  "Close st w = w\<lparr>open_conns := removeAll st (open_conns w)\<rparr>"

text \<open>The second half of \<open>openState\<close>, from \<open>info.Password = conf.InitialPassword\<close> on.\<close>

definition openState_initial :: "Info \<Rightarrow> AgentConf \<Rightarrow> world \<Rightarrow> world \<times> (error + nat \<times> string)" where
  "openState_initial info conf w =
     (case state_Open (info\<lparr>Password := InitialPassword conf\<rparr>) w of
        (w1, Inl e) \<Rightarrow> (w1, Inl e)
      | (w1, Inr st) \<Rightarrow>
          (case random w1 of
             Inl e \<Rightarrow> (Close st w1, Inl e)
           | Inr password \<Rightarrow>
               (case write_error w1 of
                  Some e \<Rightarrow> (Close st w1, Inl (Errorf (''cannot save password: '' @ Error e)))
                | None \<Rightarrow> (w1\<lparr>pwfile := Content password\<rparr>, Inr (st, password)))))"

definition openState :: "string \<Rightarrow> AgentConf \<Rightarrow> world \<Rightarrow> world \<times> (error + nat \<times> string)" where
  "openState entityName conf w =
     (let info = (StateInfo conf)\<lparr>EntityName := entityName\<rparr> in
      case pwfile w of
        ReadError e \<Rightarrow> (w, Inl e)
      | NotExist \<Rightarrow> openState_initial info conf w
      | Content data \<Rightarrow>
          (case state_Open (info\<lparr>Password := data\<rparr>) w of
             (w1, Inr st) \<Rightarrow> (w1, Inr (st, []))
           | (w1, Inl e) \<Rightarrow>
               if e \<noteq> ErrUnauthorized then (w1, Inl e)
               else openState_initial info conf w1))"

fun IsNotFound :: "error \<Rightarrow> bool" where
  "IsNotFound (NotFoundError _) = True"
| "IsNotFound _ = False"

text \<open>
  \<open>runOnce\<close> of the agent file. The deferred \<open>st.Close()\<close> runs at every return after
  the state was opened; when \<open>a.RunOnce\<close> does not return (\<open>None\<close>), neither does
  \<open>runOnce\<close>, and the connection stays open.
\<close>

definition runOnce :: "AgentConf \<Rightarrow> string \<Rightarrow> world \<Rightarrow> world \<times> error option option" where
  "runOnce c entityName w =
     (case openState entityName c w of
        (w1, Inl e) \<Rightarrow> (w1, Some (Some e))
      | (w1, Inr (st, password)) \<Rightarrow>
          (case entity w1 of
             Inl e \<Rightarrow>
               if IsNotFound e then (Close st w1, Some (Some ErrDead))
               else (Close st w1, Some (Some e))
           | Inr l \<Rightarrow>
               if l = Dead then (Close st w1, Some (Some ErrDead))
               else if password \<noteq> [] then
                 (case set_password_error w1 of
                    Some e \<Rightarrow> (Close st w1, Some (Some e))
                  | None \<Rightarrow>
                      (let w2 = w1\<lparr>entity_password := password\<rparr> in
                       case RunOnce_result w2 of
                         None \<Rightarrow> (w2, None)
                       | Some r \<Rightarrow> (Close st w2, Some r)))
               else
                 (case RunOnce_result w1 of
                    None \<Rightarrow> (w1, None)
                  | Some r \<Rightarrow> (Close st w1, Some r))))"

section \<open>The agent loop: \<open>RunLoop\<close> and \<open>MachineAgent.Run\<close>\<close>

text \<open>
  The tomb of the agent comes from a library outside the repository. Three of its
  operations are used: \<open>Err\<close> returns the reason, which is \<open>ErrStillAlive\<close> until the tomb
  is killed; \<open>Kill\<close> closes the \<open>Dying\<close> channel and sets the reason unless a reason
  other than \<open>nil\<close> is already set; \<open>Done\<close> kills the tomb with \<open>nil\<close> and marks it
  dead.
\<close>

record tomb =
  reason :: "error option"
  dying :: bool
  dead :: bool

definition tomb_Err :: "tomb \<Rightarrow> error option" where
  "tomb_Err t = reason t"

definition tomb_Kill :: "error option \<Rightarrow> tomb \<Rightarrow> tomb" where
  "tomb_Kill r t =
     t\<lparr>reason := (if reason t = None \<or> reason t = Some ErrStillAlive then r else reason t),
       dying := True\<rparr>"

definition tomb_Done :: "tomb \<Rightarrow> tomb" where
  "tomb_Done t = (tomb_Kill None t)\<lparr>dead := True\<rparr>"

definition new_tomb :: tomb where
  "new_tomb = \<lparr>reason = Some ErrStillAlive, dying = False, dead = False\<rparr>"

text \<open>
  What the loop has done so far: the lines logged by the functions of the sources (what
  the agent's own \<open>RunOnce\<close> and the tasks log themselves is not among them), the number
  of calls of \<open>runOnce\<close> (each one attempt to connect), the tools the agent runs and the
  number of calls of \<open>ChangeAgentTools\<close>, and the number of retry delays slept in full.
\<close>

record loop_state =
  atomb :: tomb
  logs :: "string list"
  attempts :: nat
  current_tools :: string
  swaps :: nat
  sleeps :: nat

text \<open>
  One pass of the loop body is an epoch. Its circumstances: what \<open>runOnce\<close> returns
  (\<open>None\<close> when it does not return) and the lines it logs, the error with which a
  change of tools would fail, and whether \<open>Stop\<close> is called on the agent
  (\<open>tomb.Kill(nil)\<close>) before the retry delay has passed.
\<close>

record epoch =
  once :: "error option option"
  once_logs :: "string list"
  swap_error :: "error option"
  stop_requested :: bool

text \<open>
  Modelled from the spec: \<open>UpgradeReadyError\<close> and its method \<open>ChangeAgentTools\<close> are
  not among the sources. The method swaps the agent's tools for those the error names
  and returns an error when the swap fails.
\<close>

definition ChangeAgentTools :: "error \<Rightarrow> epoch \<Rightarrow> loop_state \<Rightarrow> loop_state \<times> error option" where
  "ChangeAgentTools ug ep ls =
     (case swap_error ep of
        Some e \<Rightarrow> (ls\<lparr>swaps := Suc (swaps ls)\<rparr>, Some e)
      | None \<Rightarrow>
          (ls\<lparr>current_tools := (case ug of UpgradeReadyError v \<Rightarrow> v | _ \<Rightarrow> current_tools ls),
              swaps := Suc (swaps ls)\<rparr>, None))"

text \<open>
  The loop of \<open>RunLoop\<close> and of \<open>MachineAgent.Run\<close>, which differ in the function run
  once and in two words of the log: \<open>who\<close> is \<open>agent\<close> or \<open>machine agent\<close>, \<open>what\<close> is
  \<open>agent\<close> or \<open>machine\<close>. The result \<open>None\<close> says that the loop has not returned: an
  epoch did not return, or the loop is alive after the last epoch given.
\<close>

text \<open>The line logged for the error of an epoch that is retried.\<close>

fun outcome_line :: "error option \<Rightarrow> string" where
  "outcome_line None = ''cmd/jujud: workers died with no error''"
| "outcome_line (Some e) = ''cmd/jujud: '' @ Error e"

fun agent_loop :: "string \<Rightarrow> string \<Rightarrow> epoch list \<Rightarrow> loop_state \<Rightarrow> error option option \<times> loop_state" where
  "agent_loop who what [] ls =
     (if tomb_Err (atomb ls) = Some ErrStillAlive then (None, ls)
      else (Some (tomb_Err (atomb ls)), ls))"
| "agent_loop who what (ep # eps) ls =
     (if tomb_Err (atomb ls) \<noteq> Some ErrStillAlive then (Some (tomb_Err (atomb ls)), ls)
      else
        let ls1 = ls\<lparr>logs := logs ls @ [''cmd/jujud: '' @ who @ '' starting''] @ once_logs ep,
                     attempts := Suc (attempts ls)\<rparr>
        in
        case once ep of
          None \<Rightarrow> (None, ls1)
        | Some err0 \<Rightarrow>
            let (ls2, swapped) =
                  (if isUpgraded err0 then ChangeAgentTools (the err0) ep ls1
                   else (ls1, err0))
            in
            if isUpgraded err0 \<and> swapped = None then (Some err0, ls2)
            else if swapped = Some ErrDead
            then (Some None, ls2\<lparr>logs := logs ls2 @ [''cmd/jujud: '' @ what @ '' is dead'']\<rparr>)
            else
              let ls3 = ls2\<lparr>logs := logs ls2 @ [outcome_line swapped]\<rparr>;
                  t = (if stop_requested ep then tomb_Kill None (atomb ls3) else atomb ls3)
              in
              if dying t
              then agent_loop who what eps (ls3\<lparr>atomb := tomb_Kill swapped t\<rparr>)
              else agent_loop who what eps
                     (ls3\<lparr>atomb := t, logs := logs ls3 @ [''cmd/jujud: rerunning machiner''],
                          sleeps := Suc (sleeps ls3)\<rparr>))"

text \<open>
  \<open>RunLoop\<close>: each epoch finds a world, and \<open>runOnce\<close> in that world gives what the
  epoch returns. \<open>runOnce\<close> and \<open>openState\<close> log nothing themselves.
\<close>

record circumstances =
  found :: world
  tools_error :: "error option"
  stopped :: bool

definition epoch_of :: "AgentConf \<Rightarrow> string \<Rightarrow> circumstances \<Rightarrow> epoch" where
  "epoch_of c entityName x =
     \<lparr>once = snd (runOnce c entityName (found x)), once_logs = [],
      swap_error = tools_error x, stop_requested = stopped x\<rparr>"

definition RunLoop :: "AgentConf \<Rightarrow> string \<Rightarrow> circumstances list \<Rightarrow> loop_state \<Rightarrow>
    error option option \<times> loop_state" where
  "RunLoop c entityName xs ls = agent_loop ''agent'' ''agent'' (map (epoch_of c entityName) xs) ls"

text \<open>
  \<open>MachineAgent.runOnce\<close> and \<open>MachineAgent.Run\<close>. \<open>Conf.OpenState\<close>, \<open>st.Machine\<close> and
  the constructors of the tasks are outside the sources: what they return in an epoch
  is given with the epoch, and so is the schedule of \<open>runTasks\<close>. The type of the jobs
  is outside the sources too, and with it the way a job is printed: \<open>Jobs_printed\<close> is
  the text \<open>%v\<close> gives for \<open>m.Jobs()\<close>, and a job the agent does not know carries the
  text \<open>%q\<close> gives for it.
\<close>

datatype MachineJob = JobHostUnits | JobManageEnviron | JobUnknown string

record machine_world =
  Conf_OpenState :: "error + string"
  Machine :: "error + life"
  SetPassword_error :: "error option"
  Jobs :: "MachineJob list"
  Jobs_printed :: string
  upgrader :: task
  deployer :: task
  provisioner :: task
  firewaller :: task
  schedule :: "select_event list"

fun job_tasks :: "machine_world \<Rightarrow> MachineJob list \<Rightarrow> task list" where
  "job_tasks w [] = []"
| "job_tasks w (JobHostUnits # js) = deployer w # job_tasks w js"
| "job_tasks w (JobManageEnviron # js) = provisioner w # firewaller w # job_tasks w js"
| "job_tasks w (JobUnknown _ # js) = job_tasks w js"

text \<open>The lines logged while the tasks are built: one for each job that is not known.\<close>

fun job_lines :: "MachineJob list \<Rightarrow> string list" where
  "job_lines [] = []"
| "job_lines (JobUnknown q # js) = (''cmd/jujud: ignoring unknown job '' @ q) # job_lines js"
| "job_lines (_ # js) = job_lines js"

record once_result =
  result :: "error option option"
  st_closed :: bool
  started :: "task list"
  once_lines :: "string list"

definition MachineAgent_runOnce :: "machine_world \<Rightarrow> once_result" where
  "MachineAgent_runOnce w =
     (case Conf_OpenState w of
        Inl e \<Rightarrow> \<lparr>result = Some (Some e), st_closed = True, started = [], once_lines = []\<rparr>
      | Inr passwordChanged \<Rightarrow>
          (case Machine w of
             Inl e \<Rightarrow>
               \<lparr>result = Some (Some (if IsNotFound e then ErrDead else e)), st_closed = True,
                started = [], once_lines = []\<rparr>
           | Inr l \<Rightarrow>
               if l = Dead
               then \<lparr>result = Some (Some ErrDead), st_closed = True, started = [], once_lines = []\<rparr>
               else if passwordChanged \<noteq> [] \<and> SetPassword_error w \<noteq> None
               then \<lparr>result = Some (SetPassword_error w), st_closed = True, started = [],
                     once_lines = []\<rparr>
               else
                 (let running = ''cmd/jujud: running jobs for machine agent: '' @ Jobs_printed w;
                      tasks = upgrader w # job_tasks w (Jobs w);
                      built = running # job_lines (Jobs w)
                  in
                  case runTasks (schedule w) tasks of
                    None \<Rightarrow> \<lparr>result = None, st_closed = False, started = tasks, once_lines = built\<rparr>
                  | Some r \<Rightarrow>
                      \<lparr>result = Some (returned r), st_closed = True, started = tasks,
                       once_lines = built @ log_lines r\<rparr>)))"

record machine_circumstances =
  m_found :: machine_world
  m_tools_error :: "error option"
  m_stopped :: bool

definition machine_epoch_of :: "machine_circumstances \<Rightarrow> epoch" where
  "machine_epoch_of x =
     \<lparr>once = result (MachineAgent_runOnce (m_found x)),
      once_logs = once_lines (MachineAgent_runOnce (m_found x)),
      swap_error = m_tools_error x, stop_requested = m_stopped x\<rparr>"

text \<open>
  \<open>Run\<close> first reads the configuration and returns its error; the deferred calls
  (\<open>tomb.Done\<close>, then the last line of the log) run when the loop returns.
\<close>

definition MachineAgent_Run :: "error option \<Rightarrow> machine_circumstances list \<Rightarrow> loop_state \<Rightarrow>
    error option option \<times> loop_state" where
  "MachineAgent_Run conf_read_error xs ls =
     (case conf_read_error of
        Some e \<Rightarrow> (Some (Some e), ls)
      | None \<Rightarrow>
          (case agent_loop ''machine agent'' ''machine'' (map machine_epoch_of xs) ls of
             (None, ls') \<Rightarrow> (None, ls')
           | (Some r, ls') \<Rightarrow>
               (Some r, ls'\<lparr>atomb := tomb_Done (atomb ls'),
                            logs := logs ls' @ [''cmd/jujud: machine agent exiting'']\<rparr>)))"

section \<open>The agent file with \<open>agent.Conf\<close>: \<open>openState\<close>, \<open>openAPIState\<close>, \<open>agentDone\<close>\<close>

text \<open>
  The other agent file of the sources opens the state through \<open>agent.Conf\<close>, which is
  outside the sources: \<open>c.OpenState()\<close> and \<open>c.OpenAPI()\<close> return an error, or a fresh
  connection and (for the API) a new password that may be empty; \<open>c1.Write()\<close> may
  fail. The function \<open>openState\<close> of that file is \<open>openState_agent\<close> here.
\<close>

record Conf =
  Conf_StateInfo :: Info
  Conf_APIInfo :: Info
  OldPassword :: string

record agent_world =
  Conf_Open :: "error + string"
  Entity :: "error + life"
  Conf_Write_error :: "error option"
  written :: "Conf option"
  conns :: "nat list"
  fresh :: nat

definition dial :: "agent_world \<Rightarrow> agent_world \<times> nat" where
  "dial w = (w\<lparr>conns := fresh w # conns w, fresh := Suc (fresh w)\<rparr>, fresh w)"

definition st_Close :: "nat \<Rightarrow> agent_world \<Rightarrow> agent_world" where
  "st_Close st w = w\<lparr>conns := removeAll st (conns w)\<rparr>"

text \<open>The error after the entity was looked up: an entity that is not found, or is
  dead, asks the agent to terminate.\<close>

definition entity_error :: "error + life \<Rightarrow> error option" where
  "entity_error r =
     (case r of
        Inl e \<Rightarrow> if IsNotFound e then Some ErrTerminateAgent else Some e
      | Inr l \<Rightarrow> if l = Dead then Some ErrTerminateAgent else None)"

definition openState_agent :: "agent_world \<Rightarrow> agent_world \<times> (error + nat \<times> life)" where
  "openState_agent w =
     (case Conf_Open w of
        Inl e \<Rightarrow> (w, Inl e)
      | Inr _ \<Rightarrow>
          (case dial w of
             (w1, st) \<Rightarrow>
               (case entity_error (Entity w1) of
                  Some e \<Rightarrow> (st_Close st w1, Inl e)
                | None \<Rightarrow> (w1, Inr (st, case Entity w1 of Inr l \<Rightarrow> l | Inl _ \<Rightarrow> Alive)))))"

definition openAPIState :: "Conf \<Rightarrow> agent_world \<Rightarrow> Conf \<times> agent_world \<times> (error + nat \<times> life)" where
  "openAPIState c w =
     (case Conf_Open w of
        Inl e \<Rightarrow> (c, w, Inl e)
      | Inr newPassword \<Rightarrow>
          (case dial w of
             (w1, st) \<Rightarrow>
               (case entity_error (Entity w1) of
                  Some e \<Rightarrow> (c, st_Close st w1, Inl e)
                | None \<Rightarrow>
                    (let l = (case Entity w1 of Inr l \<Rightarrow> l | Inl _ \<Rightarrow> Alive) in
                     if newPassword = [] then (c, w1, Inr (st, l))
                     else
                       (let c1 = c\<lparr>OldPassword := Password (Conf_StateInfo c),
                                   Conf_StateInfo := (Conf_StateInfo c)\<lparr>Password := newPassword\<rparr>,
                                   Conf_APIInfo := (Conf_APIInfo c)\<lparr>Password := newPassword\<rparr>\<rparr>
                        in
                        case Conf_Write_error w1 of
                          Some e \<Rightarrow> (c, w1, Inl e)
                        | None \<Rightarrow> (c1, w1\<lparr>written := Some c1\<rparr>, Inr (st, l)))))))"

definition agentDone :: "error option \<Rightarrow> epoch \<Rightarrow> loop_state \<Rightarrow> loop_state \<times> error option" where
  "agentDone err0 ep ls =
     (let e1 = (if err0 = Some ErrTerminateAgent then None else err0) in
      if isUpgraded e1 then
        (case ChangeAgentTools (the e1) ep ls of
           (ls', Some err1) \<Rightarrow> (ls', Some err1)
         | (ls', None) \<Rightarrow> (ls', e1))
      else (ls, e1))"

text \<open>An entity that is not found, or whose life is \<open>Dead\<close>.\<close>

fun gone :: "error + life \<Rightarrow> bool" where
  "gone (Inl e) = IsNotFound e"
| "gone (Inr l) = (l = Dead)"

text \<open>An epoch that ends with no error or with an error that is neither an upgrade
  nor \<open>ErrDead\<close>, during which the agent is not asked to stop.\<close>

definition mundane :: "epoch \<Rightarrow> bool" where
  "mundane ep =
     (case once ep of
        None \<Rightarrow> False
      | Some e \<Rightarrow> \<not> isUpgraded e \<and> e \<noteq> Some ErrDead \<and> \<not> stop_requested ep)"

text \<open>
  The lines of an epoch that is retried after its delay: the start, the lines of
  \<open>runOnce\<close>, the error, the rerun. When the agent is asked to stop during the epoch
  the last line is not logged.
\<close>

definition interrupted_lines :: "string \<Rightarrow> epoch \<Rightarrow> string list" where
  "interrupted_lines who ep =
     (''cmd/jujud: '' @ who @ '' starting'') # once_logs ep @
     [outcome_line (case once ep of Some e \<Rightarrow> e | None \<Rightarrow> None)]"

definition epoch_lines :: "string \<Rightarrow> epoch \<Rightarrow> string list" where
  "epoch_lines who ep = interrupted_lines who ep @ [''cmd/jujud: rerunning machiner'']"

text \<open>Values used to run the definitions.\<close>

definition conf0 :: AgentConf where
  "conf0 = \<lparr>DataDir = ''/var/lib/juju'',
            StateInfo = \<lparr>Addrs = [''localhost:37017''], EntityName = [], Password = []\<rparr>,
            InitialPassword = ''initial''\<rparr>"

definition world0 :: world where
  "world0 = \<lparr>pwfile = NotExist, write_error = None, random = Inr ''secret1'',
             server_error = None, entity_password = ''initial'', entity = Inr Alive,
             set_password_error = None, RunOnce_result = Some (Some (Errorf ''boom'')),
             open_conns = [], next_conn = 0, tried = []\<rparr>"

definition loop0 :: loop_state where
  "loop0 = \<lparr>atomb = new_tomb, logs = [], attempts = 0, current_tools = ''1.0.0'', swaps = 0,
            sleeps = 0\<rparr>"

definition machine_world0 :: machine_world where
  "machine_world0 = \<lparr>Conf_OpenState = Inr [], Machine = Inr Alive, SetPassword_error = None,
                     Jobs = [JobHostUnits], Jobs_printed = ''[JobHostUnits]'',
                     upgrader = task_ok, deployer = task_boom,
                     provisioner = task_ok, firewaller = task_ok,
                     schedule = [Done \<lparr>index = 1, err = Some (Errorf ''boom'')\<rparr>]\<rparr>"

definition agent_world0 :: agent_world where
  "agent_world0 = \<lparr>Conf_Open = Inr ''secret1'', Entity = Inr Alive,
                   Conf_Write_error = Some (Errorf ''disk full''), written = None,
                   conns = [], fresh = 0\<rparr>"

definition agent_conf0 :: Conf where
  "agent_conf0 =
     \<lparr>Conf_StateInfo = \<lparr>Addrs = [''localhost:37017''], EntityName = ''machine-0'', Password = ''old''\<rparr>,
      Conf_APIInfo = \<lparr>Addrs = [''localhost:17070''], EntityName = ''machine-0'', Password = ''old''\<rparr>,
      OldPassword = []\<rparr>"

definition dead_circumstances :: circumstances where
  "dead_circumstances = \<lparr>found = world0\<lparr>entity := Inr Dead\<rparr>, tools_error = None, stopped = False\<rparr>"

definition boom_circumstances :: circumstances where
  "boom_circumstances = \<lparr>found = world0, tools_error = None, stopped = False\<rparr>"

definition stop_circumstances :: circumstances where
  "stop_circumstances = \<lparr>found = world0, tools_error = None, stopped = True\<rparr>"

definition upgrade_circumstances :: circumstances where
  "upgrade_circumstances =
     \<lparr>found = world0\<lparr>RunOnce_result := Some (Some (UpgradeReadyError ''1.2.3''))\<rparr>,
      tools_error = None, stopped = False\<rparr>"

definition dead_machine :: machine_circumstances where
  "dead_machine = \<lparr>m_found = machine_world0\<lparr>Machine := Inr Dead\<rparr>, m_tools_error = None,
                   m_stopped = False\<rparr>"

definition boom_machine :: machine_circumstances where
  "boom_machine = \<lparr>m_found = machine_world0, m_tools_error = None, m_stopped = False\<rparr>"

definition stop_machine :: machine_circumstances where
  "stop_machine = \<lparr>m_found = machine_world0, m_tools_error = None, m_stopped = True\<rparr>"

definition upgrade_machine :: machine_circumstances where
  "upgrade_machine =
     \<lparr>m_found = machine_world0\<lparr>upgrader := task_upgrade,
         schedule := [Done \<lparr>index = 0, err = Some (UpgradeReadyError ''1.2.3'')\<rparr>]\<rparr>,
      m_tools_error = None, m_stopped = False\<rparr>"

text \<open>The world after a first run of \<open>openState\<close> in \<open>world0\<close> and a restart of the
  process before the entity's password was set: the connections are gone, the file
  and the state are as the first run left them.\<close>

definition world_after_crash :: world where
  "world_after_crash =
     (fst (openState ''machine-0'' conf0 world0))\<lparr>random := Inr ''secret2'', open_conns := []\<rparr>"

section \<open>The provisioner\<close>

text \<open>
  Modelled from the spec: the provisioner (\<open>NewProvisioner\<close> and the loop it starts)
  is not among the sources; its tests in \<open>jujud/provisioner_test.go\<close> are. The model
  follows the algorithm of the reconciliation controller in the specification: the
  machine records of the state, the instances the provider lists, a pass that starts
  an instance for every machine that is alive without one and stops every instance no
  live record maps to. The operations of the provider are those the tests observe
  (\<open>OpStartInstance\<close> with the machine and the instance, \<open>OpStopInstances\<close>).
\<close>

datatype operation = OpStartInstance nat nat | OpStopInstances "nat list"

record MachineRecord =
  m_id :: nat
  m_life :: life
  m_instance :: "nat option"

record InstanceRecord =
  i_id :: nat
  i_tag :: nat

record cluster =
  config_valid :: bool
  machines :: "MachineRecord list"
  instances :: "InstanceRecord list"
  next_id :: nat
  start_failing :: "nat list"
  stop_failing :: bool
  ops :: "operation list"

text \<open>
  Modelled from the spec: the controller is idle (watching) between passes and stopped
  after a cancellation.
\<close>

datatype phase = Idle | Stopped

text \<open>
  Modelled from the spec: what the controller holds: whether it is watching or stopped,
  the number of passes it suspended, and the number of failed calls of the provider.
\<close>

record controller =
  phase :: phase
  suspended :: nat
  failures :: nat

text \<open>
  Modelled from the spec: the provider's \<open>StartInstance(tag)\<close>, which is not among the
  sources. It fails for the machines listed as failing; otherwise it creates an
  instance with the next identifier, tagged with the machine.
\<close>

definition StartInstance :: "nat \<Rightarrow> cluster \<Rightarrow> cluster \<times> nat option" where
  "StartInstance tag cl =
     (if tag \<in> set (start_failing cl) then (cl, None)
      else (cl\<lparr>instances := instances cl @ [\<lparr>i_id = next_id cl, i_tag = tag\<rparr>],
               next_id := Suc (next_id cl),
               ops := ops cl @ [OpStartInstance tag (next_id cl)]\<rparr>, Some (next_id cl)))"

text \<open>
  Modelled from the spec: the provider's \<open>StopInstances(ids)\<close>, which is not among the
  sources. It removes the instances named, unless the provider fails.
\<close>

definition StopInstances :: "nat list \<Rightarrow> cluster \<Rightarrow> cluster \<times> bool" where
  "StopInstances ids cl =
     (if stop_failing cl then (cl, False)
      else (cl\<lparr>instances := filter (\<lambda>i. i_id i \<notin> set ids) (instances cl),
               ops := ops cl @ [OpStopInstances ids]\<rparr>, True))"

text \<open>
  Modelled from the spec: writing the instance identifier back onto the machine
  record, an operation of the state that is not among the sources.
\<close>

definition SetInstanceId :: "nat \<Rightarrow> nat \<Rightarrow> cluster \<Rightarrow> cluster" where
  "SetInstanceId m x cl =
     cl\<lparr>machines := map (\<lambda>r. if m_id r = m then r\<lparr>m_instance := Some x\<rparr> else r) (machines cl)\<rparr>"

text \<open>
  Modelled from the spec: the partition of a pass. A machine is to be started when it
  is alive and has no instance identifier; an instance is to be stopped when no record
  that is not dead holds its identifier.
\<close>

definition unprovisioned :: "MachineRecord \<Rightarrow> bool" where
  "unprovisioned r = (m_life r = Alive \<and> m_instance r = None)"

definition known :: "cluster \<Rightarrow> InstanceRecord \<Rightarrow> bool" where
  "known cl i = list_ex (\<lambda>r. m_instance r = Some (i_id i) \<and> m_life r \<noteq> Dead) (machines cl)"

definition toStart :: "cluster \<Rightarrow> MachineRecord list" where
  "toStart cl = filter unprovisioned (machines cl)"

definition toStop :: "cluster \<Rightarrow> InstanceRecord list" where
  "toStop cl = filter (\<lambda>i. \<not> known cl i) (instances cl)"

text \<open>
  Modelled from the spec: the two halves of a pass, which are not among the sources.
  A start that fails is counted and the pass goes on with the next machine; all the
  instances to stop are passed to the provider in one call, and none is made when
  there is nothing to stop.
\<close>

fun startMachines :: "MachineRecord list \<Rightarrow> controller \<times> cluster \<Rightarrow> controller \<times> cluster" where
  "startMachines [] s = s"
| "startMachines (m # ms) (ctl, cl) =
     (case StartInstance (m_id m) cl of
        (cl1, None) \<Rightarrow> startMachines ms (ctl\<lparr>failures := Suc (failures ctl)\<rparr>, cl1)
      | (cl1, Some x) \<Rightarrow> startMachines ms (ctl, SetInstanceId (m_id m) x cl1))"

definition stopInstances :: "InstanceRecord list \<Rightarrow> controller \<times> cluster \<Rightarrow> controller \<times> cluster" where
  "stopInstances victims s =
     (case s of (ctl, cl) \<Rightarrow>
        if victims = [] then (ctl, cl)
        else (case StopInstances (map i_id victims) cl of
                (cl1, True) \<Rightarrow> (ctl, cl1)
              | (cl1, False) \<Rightarrow> (ctl\<lparr>failures := Suc (failures ctl)\<rparr>, cl1)))"

text \<open>
  Modelled from the spec: one reconciliation pass, which is not among the sources. As
  the first step of the algorithm says, a pass in which the fetched configuration
  fails validation makes no call to the provider; the controller counts it and stays
  as it is. (The test \<open>TestProvisioningDoesOccurAfterInvalidEnvironmentPublished\<close> of
  the sources expects a provisioner that has loaded a valid configuration before to go
  on with the old one; the specification does not describe this, and the model follows
  the specification.)
\<close>

definition reconcile :: "controller \<Rightarrow> cluster \<Rightarrow> controller \<times> cluster" where
  "reconcile ctl cl =
     (if \<not> config_valid cl then (ctl\<lparr>suspended := Suc (suspended ctl)\<rparr>, cl)
      else stopInstances (toStop cl) (startMachines (toStart cl) (ctl, cl)))"

text \<open>
  Modelled from the spec: a provisioner that has just been started holds nothing from
  an earlier run.
\<close>

definition NewProvisioner :: controller where
  "NewProvisioner = \<lparr>phase = Idle, suspended = 0, failures = 0\<rparr>"






text \<open>The cluster after one successful start, and the number of starts made for a
  machine among the operations.\<close>

definition start_one :: "MachineRecord \<Rightarrow> cluster \<Rightarrow> cluster" where
  "start_one m cl =
     SetInstanceId (m_id m) (next_id cl)
       (cl\<lparr>instances := instances cl @ [\<lparr>i_id = next_id cl, i_tag = m_id m\<rparr>],
          next_id := Suc (next_id cl),
          ops := ops cl @ [OpStartInstance (m_id m) (next_id cl)]\<rparr>)"

definition started_for :: "nat \<Rightarrow> operation list \<Rightarrow> nat" where
  "started_for m xs = length (filter (\<lambda>p. case p of OpStartInstance t _ \<Rightarrow> t = m | _ \<Rightarrow> False) xs)"

text \<open>
  Clusters used to run the definitions: one in which an instance was started for
  machine 0 and not recorded, and one without machines whose configuration fails
  validation.
\<close>

definition crashed_cluster :: cluster where
  "crashed_cluster =
     \<lparr>config_valid = True,
      machines = [\<lparr>m_id = 0, m_life = Alive, m_instance = None\<rparr>],
      instances = [\<lparr>i_id = 0, i_tag = 0\<rparr>],
      next_id = 1, start_failing = [], stop_failing = False, ops = []\<rparr>"


section \<open>The command runner: \<open>cmd.Main\<close>\<close>

text \<open>
  \<open>Context\<close> holds the streams of a command; what has been written to \<open>Stdout\<close> and
  \<open>Stderr\<close> so far is a string, and a write appends to it.
\<close>

record Context =
  Dir :: string
  Stdin :: string
  Stdout :: string
  Stderr :: string

text \<open>
  A \<open>Command\<close> is an interface; its implementation's own data is the state \<open>'s\<close>.
  \<open>Parse\<close> stands for \<open>SetFlags\<close> followed by \<open>ParseArgs\<close> on the fresh flag set: it
  yields the parse error, or \<open>f.Args()\<close>. \<open>Info_Help\<close> is \<open>c.Info().Help(f)\<close>.
\<close>

record 's Command =
  Info_Name :: string
  Info_Help :: "'s \<Rightarrow> string"
  Parse :: "'s \<Rightarrow> string list \<Rightarrow> 's \<times> (error + string list)"
  Init :: "'s \<Rightarrow> string list \<Rightarrow> 's \<times> error option"
  Run :: "'s \<Rightarrow> Context \<Rightarrow> 's \<times> Context \<times> error option"

text \<open>What \<open>Main\<close> leaves behind: the exit code, the context and the lines it logged.\<close>

record main_result =
  exit_code :: int
  ctx_after :: Context
  logged :: "string list"

definition Fprintf_error :: "Context \<Rightarrow> error \<Rightarrow> Context" where
  "Fprintf_error ctx e = ctx\<lparr>Stderr := Stderr ctx @ ''error: '' @ Error e @ ''\<newline>''\<rparr>"

definition Main :: "'s Command \<Rightarrow> 's \<Rightarrow> Context \<Rightarrow> string list \<Rightarrow> main_result" where
  "Main c s ctx args =
     (case Parse c s args of
        (s1, Inl e) \<Rightarrow>
          if e = ErrHelp
          then \<lparr>exit_code = 0, ctx_after = ctx\<lparr>Stderr := Stderr ctx @ Info_Help c s1\<rparr>, logged = []\<rparr>
          else \<lparr>exit_code = 2, ctx_after = Fprintf_error ctx e, logged = []\<rparr>
      | (s1, Inr rest) \<Rightarrow>
          (case Init c s1 rest of
             (s2, Some e) \<Rightarrow> \<lparr>exit_code = 2, ctx_after = Fprintf_error ctx e, logged = []\<rparr>
           | (s2, None) \<Rightarrow>
               (case Run c s2 ctx of
                  (s3, ctx', Some e) \<Rightarrow>
                    if e \<noteq> ErrSilent
                    then \<lparr>exit_code = 1, ctx_after = Fprintf_error ctx' e,
                          logged = [Info_Name c @ '' command failed: '' @ Error e @ ''\<newline>'']\<rparr>
                    else \<lparr>exit_code = 1, ctx_after = ctx', logged = []\<rparr>
                | (s3, ctx', None) \<Rightarrow> \<lparr>exit_code = 0, ctx_after = ctx', logged = []\<rparr>)))"

text \<open>A command used to run the definitions: it accepts \<open>--help\<close>, refuses any other
  argument in \<open>Init\<close>, and its \<open>Run\<close> fails silently when its state says so.\<close>

definition demo_command :: "bool Command" where
  "demo_command =
     \<lparr>Info_Name = ''demo'',
      Info_Help = (\<lambda>_. ''usage: demo\<newline>''),
      Parse = (\<lambda>s args. (s, if ''--help'' \<in> set args then Inl ErrHelp
                              else if ''--bad'' \<in> set args
                              then Inl (Errorf ''flag provided but not defined: --bad'')
                              else Inr args)),
      Init = (\<lambda>s args. (s, if args = [] then None else Some (Errorf ''unrecognized args''))),
      Run = (\<lambda>s ctx. (s, ctx, if s then Some ErrSilent else None))\<rparr>"

definition ctx0 :: Context where
  "ctx0 = \<lparr>Dir = ''/'', Stdin = [], Stdout = [], Stderr = []\<rparr>"

chapter \<open>Properties\<close>

section \<open>\<open>runTasks\<close>\<close>

lemma importance_cases:
  "importance None = 0"
  "importance (Some (UpgradeReadyError v)) = 2"
  "importance (Some ErrTerminateAgent) = 3"
  "importance (Some (Errorf m)) = 1"
  by (simp_all add: importance_def)

lemma importance_upgraded: "isUpgraded e \<Longrightarrow> importance e = 2"
  by (cases e rule: isUpgraded.cases) (simp_all add: importance_def)

lemma importance_pos: "e \<noteq> None \<Longrightarrow> 1 \<le> importance e"
  by (simp add: importance_def)

lemma importance_le_3: "importance e \<le> 3"
  by (simp add: importance_def)

lemma importance_2: "importance e = 2 \<Longrightarrow> isUpgraded e"
  by (simp add: importance_def split: if_splits)

lemma isUpgraded_nonnil: "isUpgraded e \<Longrightarrow> e \<noteq> None"
  by (cases e) simp_all

lemma stopping_calls: "snd (stopping i ts c calls) = calls @ [i..<i + length ts]"
proof (induction ts arbitrary: i c calls)
  case Nil
  show ?case by simp
next
  case (Cons t ts)
  have "[i..<i + length (t # ts)] = i # [Suc i..<Suc i + length ts]"
    by (subst upt_rec) simp
  then show ?case using Cons.IH by (simp add: Let_def)
qed

lemma stopping_nonnil: "err c \<noteq> None \<Longrightarrow> err (fst (stopping i ts c calls)) \<noteq> None"
proof (induction ts arbitrary: i c calls)
  case Nil
  then show ?case by simp
next
  case (Cons t ts)
  show ?case
  proof (cases "isUpgraded (Stop_result t)")
    case True
    then have "Stop_result t \<noteq> None" by (rule isUpgraded_nonnil)
    then show ?thesis using True Cons.IH by (simp add: Let_def)
  next
    case False
    then show ?thesis using Cons by (simp add: Let_def)
  qed
qed

lemma stopping_keeps_upgraded:
  "isUpgraded (err c) \<Longrightarrow> isUpgraded (err (fst (stopping i ts c calls)))"
proof (induction ts arbitrary: i c calls)
  case Nil
  then show ?case by simp
next
  case (Cons t ts)
  from Cons.prems have "err c \<noteq> None" by (rule isUpgraded_nonnil)
  then show ?case using Cons by (auto simp: Let_def)
qed

lemma stopping_upgraded:
  "t \<in> set ts \<Longrightarrow> isUpgraded (Stop_result t) \<Longrightarrow> isUpgraded (err (fst (stopping i ts c calls)))"
proof (induction ts arbitrary: i c calls)
  case Nil
  then show ?case by simp
next
  case (Cons u us)
  show ?case
  proof (cases "isUpgraded (Stop_result u)")
    case True
    then show ?thesis by (simp add: Let_def stopping_keeps_upgraded)
  next
    case False
    with Cons.prems have "t \<in> set us" by auto
    then show ?thesis using Cons.IH Cons.prems(2) by (simp add: Let_def)
  qed
qed

lemma stopping_stop_nonnil:
  "t \<in> set ts \<Longrightarrow> Stop_result t \<noteq> None \<Longrightarrow> err (fst (stopping i ts c calls)) \<noteq> None"
proof (induction ts arbitrary: i c calls)
  case Nil
  then show ?case by simp
next
  case (Cons u us)
  show ?case
  proof (cases "t = u")
    case True
    then show ?thesis using Cons.prems(2) by (simp add: Let_def stopping_nonnil)
  next
    case False
    with Cons.prems have "t \<in> set us" by auto
    then show ?thesis using Cons.IH Cons.prems(2) by (simp add: Let_def)
  qed
qed

lemma stopping_keeps:
  "err c \<noteq> None \<Longrightarrow> \<forall>t\<in>set ts. \<not> isUpgraded (Stop_result t) \<Longrightarrow> fst (stopping i ts c calls) = c"
  by (induction ts arbitrary: i calls) (auto simp: Let_def)

lemma stopping_all_nil:
  "\<forall>t\<in>set ts. Stop_result t = None \<Longrightarrow> fst (stopping i ts c calls) = c"
  by (induction ts arbitrary: i calls) (simp_all add: Let_def)

lemma runTasks_Some:
  "runTasks evs tasks = Some r \<longleftrightarrow>
     (\<exists>c. waiting (length tasks) evs = Some c \<and>
          r = \<lparr>returned = err (fst (stopping 0 tasks c [])),
               stop_calls = snd (stopping 0 tasks c []),
               log_lines = discarding 0 tasks (fst (stopping 0 tasks c []))\<rparr>)"
  by (auto simp: runTasks_def split: option.splits prod.splits)

lemma waiting_error:
  "list_all nil_done pre \<Longrightarrow> length pre < n \<Longrightarrow> err info \<noteq> None \<Longrightarrow>
   waiting n (pre @ Done info # rest) = Some info"
proof (induction pre arbitrary: n)
  case Nil
  then show ?case by (cases n) simp_all
next
  case (Cons ev pre)
  then obtain m where n: "n = Suc m" by (cases n) auto
  from Cons.prems(1) obtain i where ev: "ev = Done i" "err i = None"
    by (cases ev) auto
  show ?case using Cons n ev by simp
qed

lemma waiting_stop:
  "list_all nil_done pre \<Longrightarrow> length pre < n \<Longrightarrow>
   waiting n (pre @ Stop_signal # rest) = Some \<lparr>index = -1, err = None\<rparr>"
proof (induction pre arbitrary: n)
  case Nil
  then show ?case by (cases n) simp_all
next
  case (Cons ev pre)
  then obtain m where n: "n = Suc m" by (cases n) auto
  from Cons.prems(1) obtain i where ev: "ev = Done i" "err i = None"
    by (cases ev) auto
  show ?case using Cons n ev by simp
qed

lemma waiting_all_done:
  "list_all nil_done (take n evs) \<Longrightarrow> n \<le> length evs \<Longrightarrow>
   waiting n evs = Some \<lparr>index = -1, err = None\<rparr>"
proof (induction n arbitrary: evs)
  case 0
  then show ?case by simp
next
  case (Suc n)
  then obtain ev rest where evs: "evs = ev # rest" by (cases evs) auto
  from Suc.prems(1) evs obtain i where ev: "ev = Done i" "err i = None"
    by (cases ev) auto
  show ?case using Suc evs ev by simp
qed

lemma waiting_blocks:
  "list_all nil_done evs \<Longrightarrow> length evs < n \<Longrightarrow> waiting n evs = None"
proof (induction evs arbitrary: n)
  case Nil
  then show ?case by (cases n) simp_all
next
  case (Cons ev evs)
  then obtain m where n: "n = Suc m" by (cases n) auto
  from Cons.prems(1) obtain i where ev: "ev = Done i" "err i = None"
    by (cases ev) auto
  show ?case using Cons n ev by simp
qed

lemma importance_bound:
  assumes "b \<noteq> None \<longrightarrow> f \<noteq> None" and "isUpgraded b \<longrightarrow> isUpgraded f"
  shows "(importance b \<le> 2 \<longrightarrow> importance b \<le> importance f) \<and> (b \<noteq> None \<longrightarrow> 1 \<le> importance f)"
proof -
  have pos: "b \<noteq> None \<longrightarrow> 1 \<le> importance f"
    using assms(1) importance_pos by blast
  have "importance b \<le> importance f" if le: "importance b \<le> 2"
  proof (cases "b = None")
    case True
    then show ?thesis by (simp add: importance_def)
  next
    case False
    show ?thesis
    proof (cases "isUpgraded b")
      case True
      then show ?thesis using assms(2) by (simp add: importance_upgraded)
    next
      case up: False
      have "importance b = 1"
        using le False up by (simp add: importance_def split: if_splits)
      then show ?thesis using pos False by simp
    qed
  qed
  then show ?thesis using pos by blast
qed

text \<open>
  C1 (as amended). For every run of \<open>runTasks\<close> and every exit cause \<open>b\<close> it observes
  (the error the waiting loop left with, or the result of a \<open>Stop\<close>): when the rank of
  \<open>b\<close> is at most that of an upgrade error, the returned error has at least the rank
  of \<open>b\<close>; when \<open>b\<close> is an error, an error is returned; and when no \<open>Stop\<close> returns an
  upgrade error, the error the waiting loop left with is the one returned. An upgrade
  error surfaced while stopping therefore replaces any candidate; a terminate error
  surfaced while stopping replaces only a candidate without error.
\<close>

theorem runTasks_importance:
  assumes "runTasks evs tasks = Some r" and "b \<in> set (observed evs tasks)"
  shows "(importance b \<le> 2 \<longrightarrow> importance b \<le> importance (returned r)) \<and>
         (b \<noteq> None \<longrightarrow> 1 \<le> importance (returned r)) \<and>
         (\<forall>c. waiting (length tasks) evs = Some c \<and> err c \<noteq> None \<and>
              (\<forall>t\<in>set tasks. \<not> isUpgraded (Stop_result t)) \<longrightarrow> returned r = err c)"
proof -
  from assms(1) obtain c where c: "waiting (length tasks) evs = Some c"
    and r: "returned r = err (fst (stopping 0 tasks c []))"
    by (auto simp: runTasks_Some)
  from assms(2) c have "b = err c \<or> (\<exists>t\<in>set tasks. b = Stop_result t)"
    by (auto simp: observed_def)
  then have "(b \<noteq> None \<longrightarrow> returned r \<noteq> None) \<and> (isUpgraded b \<longrightarrow> isUpgraded (returned r))"
  proof
    assume "b = err c"
    then show ?thesis
      using r stopping_nonnil [of c 0 tasks "[]"] stopping_keeps_upgraded [of c 0 tasks "[]"]
      by simp
  next
    assume "\<exists>t\<in>set tasks. b = Stop_result t"
    then obtain t where t: "t \<in> set tasks" "b = Stop_result t" by blast
    show ?thesis
      using r t stopping_stop_nonnil [of t tasks 0 c "[]"] stopping_upgraded [of t tasks 0 c "[]"]
      by simp
  qed
  then have bound: "(importance b \<le> 2 \<longrightarrow> importance b \<le> importance (returned r)) \<and>
      (b \<noteq> None \<longrightarrow> 1 \<le> importance (returned r))"
    using importance_bound [of b "returned r"] by blast
  have "returned r = err c"
    if "err c \<noteq> None" "\<forall>t\<in>set tasks. \<not> isUpgraded (Stop_result t)"
    using that r stopping_keeps [of c tasks 0 "[]"] by simp
  then show ?thesis using bound c by auto
qed

theorem runTasks_importance_witness:
  "runTasks [Done \<lparr>index = 0, err = Some (Errorf ''boom'')\<rparr>] [task_boom, task_upgrade] =
     Some \<lparr>returned = Some (UpgradeReadyError ''1.2.3''), stop_calls = [0, 1],
           log_lines = [''cmd/jujud: boom: boom'']\<rparr> \<and>
   Some (UpgradeReadyError ''1.2.3'') \<in>
     set (observed [Done \<lparr>index = 0, err = Some (Errorf ''boom'')\<rparr>] [task_boom, task_upgrade]) \<and>
   importance (Some (UpgradeReadyError ''1.2.3'')) \<le> 2 \<and>
   importance (Some (UpgradeReadyError ''1.2.3'')) \<le> importance (Some (UpgradeReadyError ''1.2.3''))"
proof -
  let ?evs = "[Done \<lparr>index = 0, err = Some (Errorf ''boom'')\<rparr>]"
  let ?r = "\<lparr>returned = Some (UpgradeReadyError ''1.2.3''), stop_calls = [0, 1],
             log_lines = [''cmd/jujud: boom: boom'']\<rparr>"
  have run: "runTasks ?evs [task_boom, task_upgrade] = Some ?r"
    by (simp add: runTasks_def task_boom_def task_upgrade_def Let_def)
  have obs: "Some (UpgradeReadyError ''1.2.3'') \<in> set (observed ?evs [task_boom, task_upgrade])"
    by (simp add: observed_def task_boom_def task_upgrade_def)
  show ?thesis
    using runTasks_importance [OF run obs] run obs by (simp add: importance_cases)
qed

text \<open>
  The claim as written fails. With a generic error received first and a terminate
  error returned by the \<open>Stop\<close> of another task, the generic error is returned and the
  terminate error only logged; and an upgrade error returned by a \<open>Stop\<close> replaces a
  terminate error that was received first, lowering the rank of the outcome.
\<close>

theorem runTasks_importance_counterexample:
  "schedule_ok [task_boom, task_terminate] [Done \<lparr>index = 0, err = Some (Errorf ''boom'')\<rparr>] \<and>
   runTasks [Done \<lparr>index = 0, err = Some (Errorf ''boom'')\<rparr>] [task_boom, task_terminate] =
     Some \<lparr>returned = Some (Errorf ''boom''), stop_calls = [0, 1],
           log_lines = [''cmd/jujud: machiner: '' @ Error ErrTerminateAgent]\<rparr> \<and>
   observed [Done \<lparr>index = 0, err = Some (Errorf ''boom'')\<rparr>] [task_boom, task_terminate] =
     [Some (Errorf ''boom''), Some (Errorf ''boom''), Some ErrTerminateAgent] \<and>
   importance (Some (Errorf ''boom'')) < importance (Some ErrTerminateAgent) \<and>
   \<not> importance (Some ErrTerminateAgent) \<le> importance (Some (Errorf ''boom'')) \<and>
   schedule_ok [task_terminate, task_upgrade] [Done \<lparr>index = 0, err = Some ErrTerminateAgent\<rparr>] \<and>
   runTasks [Done \<lparr>index = 0, err = Some ErrTerminateAgent\<rparr>] [task_terminate, task_upgrade] =
     Some \<lparr>returned = Some (UpgradeReadyError ''1.2.3''), stop_calls = [0, 1],
           log_lines = [''cmd/jujud: machiner: '' @ Error ErrTerminateAgent]\<rparr> \<and>
   \<not> importance (Some ErrTerminateAgent) \<le> importance (Some (UpgradeReadyError ''1.2.3''))"
  by (simp add: runTasks_def observed_def schedule_ok_def importance_cases Let_def
      task_boom_def task_terminate_def task_upgrade_def)

text \<open>
  C2 (as amended). Let the events before the decisive one be successful completions.
  \<open>runTasks\<close> leaves the waiting loop at the first completion with an error, at a value
  on \<open>stop\<close>, or once as many completions as tasks were received; it then calls \<open>Stop\<close>
  on every task in order and returns: the received error unless a \<open>Stop\<close> returns an
  upgrade error, and no error in the other two cases when every \<open>Stop\<close> returns none.
  While fewer successful completions than tasks have been received and nothing else
  arrives, it does not return.
\<close>

theorem runTasks_waits_for_failure:
  assumes "list_all nil_done pre"
  shows
    "(length pre < length tasks \<and> err info \<noteq> None \<longrightarrow>
        (\<exists>r. runTasks (pre @ Done info # rest) tasks = Some r \<and>
             stop_calls r = [0..<length tasks] \<and>
             ((\<forall>t\<in>set tasks. \<not> isUpgraded (Stop_result t)) \<longrightarrow> returned r = err info))) \<and>
     (length pre < length tasks \<longrightarrow>
        (\<exists>r. runTasks (pre @ Stop_signal # rest) tasks = Some r \<and>
             stop_calls r = [0..<length tasks] \<and>
             ((\<forall>t\<in>set tasks. Stop_result t = None) \<longrightarrow> returned r = None))) \<and>
     (length pre = length tasks \<longrightarrow>
        (\<exists>r. runTasks (pre @ rest) tasks = Some r \<and>
             stop_calls r = [0..<length tasks] \<and>
             ((\<forall>t\<in>set tasks. Stop_result t = None) \<longrightarrow> returned r = None))) \<and>
     (length pre < length tasks \<longrightarrow> runTasks pre tasks = None)"
proof -
  let ?init = "\<lparr>index = -1, err = None\<rparr>"
  have ret: "\<exists>r. runTasks evs tasks = Some r \<and> stop_calls r = [0..<length tasks] \<and>
      returned r = err (fst (stopping 0 tasks c []))"
    if "waiting (length tasks) evs = Some c" for evs c
    using that by (simp add: runTasks_Some stopping_calls)
  have a: "\<exists>r. runTasks (pre @ Done info # rest) tasks = Some r \<and>
      stop_calls r = [0..<length tasks] \<and>
      ((\<forall>t\<in>set tasks. \<not> isUpgraded (Stop_result t)) \<longrightarrow> returned r = err info)"
    if "length pre < length tasks" "err info \<noteq> None"
    using ret [OF waiting_error [OF assms that, of rest]] stopping_keeps [OF that(2), of tasks 0 "[]"]
    by auto
  have b: "\<exists>r. runTasks (pre @ Stop_signal # rest) tasks = Some r \<and>
      stop_calls r = [0..<length tasks] \<and>
      ((\<forall>t\<in>set tasks. Stop_result t = None) \<longrightarrow> returned r = None)"
    if "length pre < length tasks"
    using ret [OF waiting_stop [OF assms that, of rest]] stopping_all_nil [of tasks 0 ?init "[]"]
    by auto
  have c: "\<exists>r. runTasks (pre @ rest) tasks = Some r \<and>
      stop_calls r = [0..<length tasks] \<and>
      ((\<forall>t\<in>set tasks. Stop_result t = None) \<longrightarrow> returned r = None)"
    if "length pre = length tasks"
  proof -
    have "waiting (length tasks) (pre @ rest) = Some ?init"
      using assms that by (intro waiting_all_done) simp_all
    from ret [OF this] show ?thesis
      using stopping_all_nil [of tasks 0 ?init "[]"] by auto
  qed
  have d: "runTasks pre tasks = None" if "length pre < length tasks"
    using waiting_blocks [OF assms that] by (simp add: runTasks_def)
  from a b c d show ?thesis by blast
qed

theorem runTasks_waits_for_failure_witness:
  "(\<exists>r. runTasks ([Done \<lparr>index = 0, err = None\<rparr>] @
                    Done \<lparr>index = 1, err = Some (Errorf ''boom'')\<rparr> # []) [task_ok, task_boom] = Some r \<and>
        stop_calls r = [0..<length [task_ok, task_boom]] \<and>
        returned r = Some (Errorf ''boom'')) \<and>
   (\<exists>r. runTasks ([Done \<lparr>index = 0, err = None\<rparr>] @ Stop_signal # []) [task_ok, task_ok] = Some r \<and>
        stop_calls r = [0..<length [task_ok, task_ok]] \<and> returned r = None) \<and>
   (\<exists>r. runTasks ([Done \<lparr>index = 0, err = None\<rparr>] @ []) [task_ok] = Some r \<and>
        stop_calls r = [0..<length [task_ok]] \<and> returned r = None) \<and>
   runTasks [Done \<lparr>index = 0, err = None\<rparr>] [task_ok, task_boom] = None"
proof -
  let ?pre = "[Done \<lparr>index = 0, err = None\<rparr>]"
  have pre: "list_all nil_done ?pre" by simp
  have up: "\<forall>t\<in>set [task_ok, task_boom]. \<not> isUpgraded (Stop_result t)"
    by (simp add: task_ok_def task_boom_def)
  have nil: "\<forall>t\<in>set [task_ok, task_ok]. Stop_result t = None" "\<forall>t\<in>set [task_ok]. Stop_result t = None"
    by (simp_all add: task_ok_def)
  have len: "length ?pre < length [task_ok, task_boom]" "length ?pre < length [task_ok, task_ok]"
    "length ?pre = length [task_ok]"
    by simp_all
  note w1 = runTasks_waits_for_failure [OF pre, of "[task_ok, task_boom]"
      "\<lparr>index = 1, err = Some (Errorf ''boom'')\<rparr>" "[]"]
  note w2 = runTasks_waits_for_failure [OF pre, of "[task_ok, task_ok]" _ "[]"]
  note w3 = runTasks_waits_for_failure [OF pre, of "[task_ok]" _ "[]"]
  have one: "\<exists>r. runTasks (?pre @ Done \<lparr>index = 1, err = Some (Errorf ''boom'')\<rparr> # [])
        [task_ok, task_boom] = Some r \<and>
      stop_calls r = [0..<length [task_ok, task_boom]] \<and> returned r = Some (Errorf ''boom'')"
    using w1 up len(1) by auto
  have two: "\<exists>r. runTasks (?pre @ Stop_signal # []) [task_ok, task_ok] = Some r \<and>
      stop_calls r = [0..<length [task_ok, task_ok]] \<and> returned r = None"
    using w2 nil(1) len(2) by blast
  have three: "\<exists>r. runTasks (?pre @ []) [task_ok] = Some r \<and>
      stop_calls r = [0..<length [task_ok]] \<and> returned r = None"
    using w3 nil(2) len(3) by blast
  have four: "runTasks ?pre [task_ok, task_boom] = None"
    using w1 len(1) by blast
  from one two three four show ?thesis by blast
qed

text \<open>
  The claim as written fails. After the successful completion of one task of two, with
  nothing else arriving, \<open>runTasks\<close> is still waiting; and when the second task then
  completes with an error, the error returned is that of the second completion, not of
  the first one observed.
\<close>

theorem runTasks_first_completion_counterexample:
  "schedule_ok [task_ok, task_finished] [Done \<lparr>index = 0, err = None\<rparr>] \<and>
   runTasks [Done \<lparr>index = 0, err = None\<rparr>] [task_ok, task_finished] = None \<and>
   schedule_ok [task_ok, task_finished]
     [Done \<lparr>index = 0, err = None\<rparr>, Done \<lparr>index = 1, err = Some (Errorf ''boom'')\<rparr>] \<and>
   runTasks [Done \<lparr>index = 0, err = None\<rparr>, Done \<lparr>index = 1, err = Some (Errorf ''boom'')\<rparr>]
     [task_ok, task_finished] =
     Some \<lparr>returned = Some (Errorf ''boom''), stop_calls = [0, 1], log_lines = []\<rparr>"
  by (simp add: runTasks_def schedule_ok_def Let_def task_ok_def task_finished_def)

section \<open>The agent loop\<close>

lemma agent_loop_dead:
  assumes "tomb_Err (atomb ls) = Some ErrStillAlive" and "once ep = Some (Some ErrDead)"
  shows "fst (agent_loop who what (ep # eps) ls) = Some None \<and>
    attempts (snd (agent_loop who what (ep # eps) ls)) = Suc (attempts ls) \<and>
    logs (snd (agent_loop who what (ep # eps) ls)) =
      logs ls @ [''cmd/jujud: '' @ who @ '' starting''] @ once_logs ep @
        [''cmd/jujud: '' @ what @ '' is dead'']"
  using assms by (simp add: Let_def)

lemma agent_loop_upgrade:
  assumes "tomb_Err (atomb ls) = Some ErrStillAlive"
    and "once ep = Some (Some (UpgradeReadyError v))" and "swap_error ep = None"
  shows "fst (agent_loop who what (ep # eps) ls) = Some (Some (UpgradeReadyError v)) \<and>
    attempts (snd (agent_loop who what (ep # eps) ls)) = Suc (attempts ls) \<and>
    current_tools (snd (agent_loop who what (ep # eps) ls)) = v \<and>
    swaps (snd (agent_loop who what (ep # eps) ls)) = Suc (swaps ls)"
  using assms by (simp add: Let_def ChangeAgentTools_def)

lemma agent_loop_mundane_step:
  assumes "tomb_Err (atomb ls) = Some ErrStillAlive" and "\<not> dying (atomb ls)" and "mundane ep"
  shows "\<exists>ls'. agent_loop who what (ep # eps) ls = agent_loop who what eps ls' \<and>
    atomb ls' = atomb ls \<and> attempts ls' = Suc (attempts ls) \<and> sleeps ls' = Suc (sleeps ls) \<and>
    swaps ls' = swaps ls \<and> current_tools ls' = current_tools ls \<and>
    logs ls' = logs ls @ epoch_lines who ep"
proof -
  from assms(3) obtain e where e: "once ep = Some e" "\<not> isUpgraded e" "e \<noteq> Some ErrDead"
    "\<not> stop_requested ep"
    by (auto simp: mundane_def split: option.splits)
  let ?ls' = "ls\<lparr>attempts := Suc (attempts ls), logs := logs ls @ epoch_lines who ep,
                 sleeps := Suc (sleeps ls)\<rparr>"
  have "agent_loop who what (ep # eps) ls = agent_loop who what eps ?ls'"
    using assms(1,2) e by (simp add: Let_def epoch_lines_def interrupted_lines_def)
  then show ?thesis
    by (intro exI [of _ ?ls']) simp
qed

lemma agent_loop_mundane:
  assumes "\<forall>ep\<in>set eps. mundane ep"
    and "tomb_Err (atomb ls) = Some ErrStillAlive" and "\<not> dying (atomb ls)"
  shows "\<exists>ls'. agent_loop who what (eps @ rest) ls = agent_loop who what rest ls' \<and>
    atomb ls' = atomb ls \<and> attempts ls' = attempts ls + length eps \<and>
    sleeps ls' = sleeps ls + length eps \<and> swaps ls' = swaps ls \<and>
    current_tools ls' = current_tools ls \<and>
    logs ls' = logs ls @ concat (map (epoch_lines who) eps)"
  using assms
proof (induction eps arbitrary: ls)
  case Nil
  show ?case by (intro exI [of _ ls]) simp
next
  case (Cons ep eps)
  from Cons.prems have "mundane ep" by simp
  from agent_loop_mundane_step [OF Cons.prems(2,3) this, of who what "eps @ rest"]
  obtain l1 where l1: "agent_loop who what (ep # eps @ rest) ls = agent_loop who what (eps @ rest) l1"
    "atomb l1 = atomb ls" "attempts l1 = Suc (attempts ls)" "sleeps l1 = Suc (sleeps ls)"
    "swaps l1 = swaps ls" "current_tools l1 = current_tools ls"
    "logs l1 = logs ls @ epoch_lines who ep"
    by blast
  from Cons.prems l1(2) have "\<forall>ep\<in>set eps. mundane ep"
    "tomb_Err (atomb l1) = Some ErrStillAlive" "\<not> dying (atomb l1)"
    by simp_all
  from Cons.IH [OF this] obtain l2 where
    l2: "agent_loop who what (eps @ rest) l1 = agent_loop who what rest l2"
    "atomb l2 = atomb l1" "attempts l2 = attempts l1 + length eps"
    "sleeps l2 = sleeps l1 + length eps" "swaps l2 = swaps l1"
    "current_tools l2 = current_tools l1"
    "logs l2 = logs l1 @ concat (map (epoch_lines who) eps)"
    by blast
  show ?case
    using l1 l2 by (intro exI [of _ l2]) simp
qed

lemma agent_loop_interrupted:
  assumes "tomb_Err (atomb ls) = Some ErrStillAlive"
    and "once ep = Some e" and "\<not> isUpgraded e" and "e \<noteq> Some ErrDead"
    and "e \<noteq> Some ErrStillAlive" and "stop_requested ep"
  shows "fst (agent_loop who what (ep # eps) ls) = Some e \<and>
    attempts (snd (agent_loop who what (ep # eps) ls)) = Suc (attempts ls) \<and>
    sleeps (snd (agent_loop who what (ep # eps) ls)) = sleeps ls \<and>
    logs (snd (agent_loop who what (ep # eps) ls)) = logs ls @ interrupted_lines who ep"
proof -
  have alive: "reason (atomb ls) = Some ErrStillAlive"
    using assms(1) by (simp add: tomb_Err_def)
  show ?thesis
    using assms alive
    by (cases eps) (simp_all add: Let_def tomb_Kill_def tomb_Err_def interrupted_lines_def)
qed

lemma agent_loop_retries:
  assumes "\<forall>ep\<in>set eps. mundane ep"
    and "tomb_Err (atomb ls) = Some ErrStillAlive" and "\<not> dying (atomb ls)"
  shows "fst (agent_loop who what eps ls) = None \<and>
    attempts (snd (agent_loop who what eps ls)) = attempts ls + length eps \<and>
    sleeps (snd (agent_loop who what eps ls)) = sleeps ls + length eps \<and>
    swaps (snd (agent_loop who what eps ls)) = swaps ls \<and>
    logs (snd (agent_loop who what eps ls)) = logs ls @ concat (map (epoch_lines who) eps)"
proof -
  from agent_loop_mundane [OF assms, of who what "[]"]
  obtain ls' where ls': "agent_loop who what eps ls = agent_loop who what [] ls'"
    "atomb ls' = atomb ls" "attempts ls' = attempts ls + length eps"
    "sleeps ls' = sleeps ls + length eps" "swaps ls' = swaps ls"
    "logs ls' = logs ls @ concat (map (epoch_lines who) eps)"
    by auto
  show ?thesis using ls' assms(2) by simp
qed

lemma agent_loop_retries_interrupted:
  assumes "\<forall>ep\<in>set eps. mundane ep"
    and "tomb_Err (atomb ls) = Some ErrStillAlive" and "\<not> dying (atomb ls)"
    and "once ep = Some e" and "\<not> isUpgraded e" and "e \<noteq> Some ErrDead"
    and "e \<noteq> Some ErrStillAlive" and "stop_requested ep"
  shows "fst (agent_loop who what (eps @ ep # rest) ls) = Some e \<and>
    attempts (snd (agent_loop who what (eps @ ep # rest) ls)) = Suc (attempts ls + length eps) \<and>
    sleeps (snd (agent_loop who what (eps @ ep # rest) ls)) = sleeps ls + length eps \<and>
    logs (snd (agent_loop who what (eps @ ep # rest) ls)) =
      logs ls @ concat (map (epoch_lines who) eps) @ interrupted_lines who ep"
proof -
  from agent_loop_mundane [OF assms(1-3), of who what "ep # rest"]
  obtain ls' where ls': "agent_loop who what (eps @ ep # rest) ls = agent_loop who what (ep # rest) ls'"
    "atomb ls' = atomb ls" "attempts ls' = attempts ls + length eps"
    "sleeps ls' = sleeps ls + length eps"
    "logs ls' = logs ls @ concat (map (epoch_lines who) eps)"
    by auto
  from ls'(2) assms(2) have "tomb_Err (atomb ls') = Some ErrStillAlive" by simp
  from agent_loop_interrupted [OF this assms(4-8), of who what rest] ls'
  show ?thesis by simp
qed

text \<open>The error of an epoch that is retried is among its lines.\<close>

lemma outcome_in_epoch_lines:
  "once ep = Some e \<Longrightarrow> outcome_line e \<in> set (epoch_lines who ep)"
  by (simp add: epoch_lines_def interrupted_lines_def)

lemma state_Open_fields:
  "state_Open info w = (w1, r) \<Longrightarrow>
   pwfile w1 = pwfile w \<and> write_error w1 = write_error w \<and> random w1 = random w \<and>
   server_error w1 = server_error w \<and> entity_password w1 = entity_password w \<and>
   entity w1 = entity w \<and> set_password_error w1 = set_password_error w \<and>
   RunOnce_result w1 = RunOnce_result w"
  by (auto simp: state_Open_def Let_def split: option.splits if_splits)

lemma openState_initial_entity:
  "openState_initial info c w = (w1, r) \<Longrightarrow>
   entity w1 = entity w \<and> RunOnce_result w1 = RunOnce_result w \<and>
   set_password_error w1 = set_password_error w"
  unfolding openState_initial_def
  by (auto simp: Close_def split: prod.splits sum.splits option.splits dest!: state_Open_fields)

lemma openState_entity:
  "openState n c w = (w1, r) \<Longrightarrow>
   entity w1 = entity w \<and> RunOnce_result w1 = RunOnce_result w \<and>
   set_password_error w1 = set_password_error w"
  unfolding openState_def Let_def
  by (auto split: read_result.splits prod.splits sum.splits if_splits
      dest!: state_Open_fields openState_initial_entity)

lemma runOnce_gone:
  assumes "snd (openState n c w) = Inr (st, pw)" and "gone (entity w)"
  shows "snd (runOnce c n w) = Some (Some ErrDead)"
proof -
  obtain w1 where w1: "openState n c w = (w1, Inr (st, pw))"
    using assms(1) by (cases "openState n c w") simp
  then have "entity w1 = entity w" by (simp add: openState_entity)
  with assms(2) have "gone (entity w1)" by simp
  then show ?thesis
    using w1 by (cases "entity w1") (simp_all add: runOnce_def)
qed

lemma MachineAgent_runOnce_gone:
  assumes "Conf_OpenState w = Inr p" and "gone (Machine w)"
  shows "MachineAgent_runOnce w =
    \<lparr>result = Some (Some ErrDead), st_closed = True, started = [], once_lines = []\<rparr>"
  using assms by (cases "Machine w") (simp_all add: MachineAgent_runOnce_def)

lemma MachineAgent_Run_returns:
  assumes "fst (agent_loop ''machine agent'' ''machine'' (map machine_epoch_of xs) ls) = Some r"
  shows "fst (MachineAgent_Run None xs ls) = Some r \<and>
    attempts (snd (MachineAgent_Run None xs ls)) =
      attempts (snd (agent_loop ''machine agent'' ''machine'' (map machine_epoch_of xs) ls)) \<and>
    sleeps (snd (MachineAgent_Run None xs ls)) =
      sleeps (snd (agent_loop ''machine agent'' ''machine'' (map machine_epoch_of xs) ls)) \<and>
    swaps (snd (MachineAgent_Run None xs ls)) =
      swaps (snd (agent_loop ''machine agent'' ''machine'' (map machine_epoch_of xs) ls)) \<and>
    current_tools (snd (MachineAgent_Run None xs ls)) =
      current_tools (snd (agent_loop ''machine agent'' ''machine'' (map machine_epoch_of xs) ls)) \<and>
    logs (snd (MachineAgent_Run None xs ls)) =
      logs (snd (agent_loop ''machine agent'' ''machine'' (map machine_epoch_of xs) ls)) @
        [''cmd/jujud: machine agent exiting'']"
  using assms
  by (cases "agent_loop ''machine agent'' ''machine'' (map machine_epoch_of xs) ls")
    (simp add: MachineAgent_Run_def)

lemma MachineAgent_Run_running:
  assumes "fst (agent_loop ''machine agent'' ''machine'' (map machine_epoch_of xs) ls) = None"
  shows "MachineAgent_Run None xs ls =
    agent_loop ''machine agent'' ''machine'' (map machine_epoch_of xs) ls"
  using assms
  by (cases "agent_loop ''machine agent'' ''machine'' (map machine_epoch_of xs) ls")
    (simp add: MachineAgent_Run_def)

lemma openState_agent_gone:
  assumes "Conf_Open w = Inr p" and "gone (Entity w)"
  shows "openState_agent w =
    (w\<lparr>conns := removeAll (fresh w) (conns w), fresh := Suc (fresh w)\<rparr>, Inl ErrTerminateAgent)"
  using assms
  by (cases "Entity w") (simp_all add: openState_agent_def dial_def st_Close_def entity_error_def)

lemma runOnce_world0:
  "snd (openState ''machine-0'' conf0 world0) = Inr (0, ''secret1'')"
  "snd (openState ''machine-0'' conf0 (world0\<lparr>entity := Inr Dead\<rparr>)) = Inr (0, ''secret1'')"
  "snd (runOnce conf0 ''machine-0'' world0) = Some (Some (Errorf ''boom''))"
  "snd (runOnce conf0 ''machine-0''
     (world0\<lparr>RunOnce_result := Some (Some (UpgradeReadyError ''1.2.3''))\<rparr>)) =
   Some (Some (UpgradeReadyError ''1.2.3''))"
  by (simp_all add: runOnce_def openState_def openState_initial_def state_Open_def Close_def
      conf0_def world0_def Let_def)

lemma MachineAgent_runOnce_lines0:
  "once_lines (MachineAgent_runOnce machine_world0) =
     [''cmd/jujud: running jobs for machine agent: [JobHostUnits]'']"
  by (simp add: MachineAgent_runOnce_def machine_world0_def runTasks_def Let_def
      task_ok_def task_boom_def)

lemma MachineAgent_runOnce_world0:
  "result (MachineAgent_runOnce machine_world0) = Some (Some (Errorf ''boom''))"
  "result (MachineAgent_runOnce (machine_world0\<lparr>upgrader := task_upgrade,
      schedule := [Done \<lparr>index = 0, err = Some (UpgradeReadyError ''1.2.3'')\<rparr>]\<rparr>)) =
   Some (Some (UpgradeReadyError ''1.2.3''))"
  by (simp_all add: MachineAgent_runOnce_def machine_world0_def runTasks_def Let_def
      task_ok_def task_boom_def task_upgrade_def)

text \<open>
  C6. When the agent's entity is not found or is dead, \<open>openState\<close> of the file with
  \<open>agent.Conf\<close> closes the connection and returns \<open>ErrTerminateAgent\<close>, the error of the
  highest importance, which \<open>agentDone\<close> turns into no error; and in the loops of
  \<open>MachineAgent.Run\<close> and \<open>RunLoop\<close> the epoch returns \<open>ErrDead\<close>, no task is started, and
  the loop returns \<open>nil\<close> after this one attempt, whatever epochs could follow.
\<close>

theorem gone_entity_terminates:
  assumes "gone r" and "tomb_Err (atomb ls) = Some ErrStillAlive"
  shows
    "(Conf_Open w = Inr p \<and> Entity w = r \<longrightarrow>
        snd (openState_agent w) = Inl ErrTerminateAgent \<and>
        fresh w \<notin> set (conns (fst (openState_agent w)))) \<and>
     importance (Some ErrTerminateAgent) = 3 \<and>
     agentDone (Some ErrTerminateAgent) ep ls = (ls, None) \<and>
     (Conf_OpenState (m_found x) = Inr p' \<and> Machine (m_found x) = r \<longrightarrow>
        result (MachineAgent_runOnce (m_found x)) = Some (Some ErrDead) \<and>
        started (MachineAgent_runOnce (m_found x)) = [] \<and>
        fst (MachineAgent_Run None (x # xs) ls) = Some None \<and>
        attempts (snd (MachineAgent_Run None (x # xs) ls)) = Suc (attempts ls)) \<and>
     (snd (openState n c (found y)) = Inr (st, pw) \<and> entity (found y) = r \<longrightarrow>
        snd (runOnce c n (found y)) = Some (Some ErrDead) \<and>
        fst (RunLoop c n (y # ys) ls) = Some None \<and>
        attempts (snd (RunLoop c n (y # ys) ls)) = Suc (attempts ls))"
proof -
  have a: "snd (openState_agent w) = Inl ErrTerminateAgent \<and>
      fresh w \<notin> set (conns (fst (openState_agent w)))"
    if "Conf_Open w = Inr p" "Entity w = r"
    using that assms(1) openState_agent_gone [of w p] by simp
  have b: "agentDone (Some ErrTerminateAgent) ep ls = (ls, None)"
    by (simp add: agentDone_def)
  have m: "result (MachineAgent_runOnce (m_found x)) = Some (Some ErrDead) \<and>
      started (MachineAgent_runOnce (m_found x)) = [] \<and>
      fst (MachineAgent_Run None (x # xs) ls) = Some None \<and>
      attempts (snd (MachineAgent_Run None (x # xs) ls)) = Suc (attempts ls)"
    if "Conf_OpenState (m_found x) = Inr p'" "Machine (m_found x) = r"
  proof -
    have once: "MachineAgent_runOnce (m_found x) =
        \<lparr>result = Some (Some ErrDead), st_closed = True, started = [], once_lines = []\<rparr>"
      using that assms(1) MachineAgent_runOnce_gone [of "m_found x" p'] by simp
    then have "once (machine_epoch_of x) = Some (Some ErrDead)"
      by (simp add: machine_epoch_of_def)
    from agent_loop_dead [OF assms(2) this, of "''machine agent''" "''machine''"
        "map machine_epoch_of xs"]
    have loop: "fst (agent_loop ''machine agent'' ''machine'' (map machine_epoch_of (x # xs)) ls) =
        Some None"
      "attempts (snd (agent_loop ''machine agent'' ''machine'' (map machine_epoch_of (x # xs)) ls)) =
        Suc (attempts ls)"
      by simp_all
    from MachineAgent_Run_returns [OF loop(1)] loop(2) once show ?thesis
      by simp
  qed
  have l: "snd (runOnce c n (found y)) = Some (Some ErrDead) \<and>
      fst (RunLoop c n (y # ys) ls) = Some None \<and>
      attempts (snd (RunLoop c n (y # ys) ls)) = Suc (attempts ls)"
    if "snd (openState n c (found y)) = Inr (st, pw)" "entity (found y) = r"
  proof -
    have once: "snd (runOnce c n (found y)) = Some (Some ErrDead)"
      using that assms(1) runOnce_gone [of n c "found y" st pw] by simp
    then have "once (epoch_of c n y) = Some (Some ErrDead)"
      by (simp add: epoch_of_def)
    from agent_loop_dead [OF assms(2) this] once show ?thesis
      by (simp add: RunLoop_def)
  qed
  from a b m l show ?thesis by (simp add: importance_cases)
qed

theorem gone_entity_terminates_witness:
  "gone (Inr Dead) \<and> tomb_Err (atomb loop0) = Some ErrStillAlive \<and>
   snd (openState_agent (agent_world0\<lparr>Entity := Inr Dead\<rparr>)) = Inl ErrTerminateAgent \<and>
   result (MachineAgent_runOnce (m_found dead_machine)) = Some (Some ErrDead) \<and>
   fst (MachineAgent_Run None [dead_machine, boom_machine] loop0) = Some None \<and>
   attempts (snd (MachineAgent_Run None [dead_machine, boom_machine] loop0)) = Suc 0 \<and>
   fst (RunLoop conf0 ''machine-0'' [dead_circumstances, boom_circumstances] loop0) = Some None \<and>
   attempts (snd (RunLoop conf0 ''machine-0'' [dead_circumstances, boom_circumstances] loop0)) = Suc 0"
proof -
  have g: "gone (Inr Dead)" by simp
  have t: "tomb_Err (atomb loop0) = Some ErrStillAlive"
    by (simp add: loop0_def new_tomb_def tomb_Err_def)
  have w: "Conf_Open (agent_world0\<lparr>Entity := Inr Dead\<rparr>) = Inr ''secret1'' \<and>
      Entity (agent_world0\<lparr>Entity := Inr Dead\<rparr>) = Inr Dead"
    by (simp add: agent_world0_def)
  have m: "Conf_OpenState (m_found dead_machine) = Inr [] \<and> Machine (m_found dead_machine) = Inr Dead"
    by (simp add: dead_machine_def machine_world0_def)
  have l: "snd (openState ''machine-0'' conf0 (found dead_circumstances)) = Inr (0, ''secret1'') \<and>
      entity (found dead_circumstances) = Inr Dead"
    by (simp add: dead_circumstances_def runOnce_world0)
  have a0: "attempts loop0 = 0" by (simp add: loop0_def)
  from gone_entity_terminates [OF g t, of "agent_world0\<lparr>Entity := Inr Dead\<rparr>" "''secret1''" _
      dead_machine "[]" "[boom_machine]" "''machine-0''" conf0 dead_circumstances 0 "''secret1''"
      "[boom_circumstances]"]
    g t w m l a0
  show ?thesis by simp
qed

text \<open>
  C7. When an epoch ends with an upgrade error and the tomb is alive, the loop calls
  \<open>ChangeAgentTools\<close> once; when the change succeeds the agent runs the new tools and
  the loop returns the upgrade error itself after this one attempt, whatever epochs
  could follow. \<open>agentDone\<close> does the same with the error of an exiting agent.
\<close>

theorem upgrade_swaps_and_returns:
  assumes "tomb_Err (atomb ls) = Some ErrStillAlive"
  shows
    "(snd (runOnce c n (found y)) = Some (Some (UpgradeReadyError v)) \<and> tools_error y = None \<longrightarrow>
        fst (RunLoop c n (y # ys) ls) = Some (Some (UpgradeReadyError v)) \<and>
        swaps (snd (RunLoop c n (y # ys) ls)) = Suc (swaps ls) \<and>
        current_tools (snd (RunLoop c n (y # ys) ls)) = v \<and>
        attempts (snd (RunLoop c n (y # ys) ls)) = Suc (attempts ls)) \<and>
     (result (MachineAgent_runOnce (m_found x)) = Some (Some (UpgradeReadyError v)) \<and>
      m_tools_error x = None \<longrightarrow>
        fst (MachineAgent_Run None (x # xs) ls) = Some (Some (UpgradeReadyError v)) \<and>
        swaps (snd (MachineAgent_Run None (x # xs) ls)) = Suc (swaps ls) \<and>
        current_tools (snd (MachineAgent_Run None (x # xs) ls)) = v \<and>
        attempts (snd (MachineAgent_Run None (x # xs) ls)) = Suc (attempts ls)) \<and>
     (swap_error ep = None \<longrightarrow>
        agentDone (Some (UpgradeReadyError v)) ep ls =
          (ls\<lparr>current_tools := v, swaps := Suc (swaps ls)\<rparr>, Some (UpgradeReadyError v)))"
proof -
  have l: "fst (RunLoop c n (y # ys) ls) = Some (Some (UpgradeReadyError v)) \<and>
      swaps (snd (RunLoop c n (y # ys) ls)) = Suc (swaps ls) \<and>
      current_tools (snd (RunLoop c n (y # ys) ls)) = v \<and>
      attempts (snd (RunLoop c n (y # ys) ls)) = Suc (attempts ls)"
    if "snd (runOnce c n (found y)) = Some (Some (UpgradeReadyError v))" "tools_error y = None"
  proof -
    from that have "once (epoch_of c n y) = Some (Some (UpgradeReadyError v))"
      "swap_error (epoch_of c n y) = None"
      by (simp_all add: epoch_of_def)
    from agent_loop_upgrade [OF assms this] show ?thesis
      by (simp add: RunLoop_def)
  qed
  have m: "fst (MachineAgent_Run None (x # xs) ls) = Some (Some (UpgradeReadyError v)) \<and>
      swaps (snd (MachineAgent_Run None (x # xs) ls)) = Suc (swaps ls) \<and>
      current_tools (snd (MachineAgent_Run None (x # xs) ls)) = v \<and>
      attempts (snd (MachineAgent_Run None (x # xs) ls)) = Suc (attempts ls)"
    if "result (MachineAgent_runOnce (m_found x)) = Some (Some (UpgradeReadyError v))"
      "m_tools_error x = None"
  proof -
    from that have "once (machine_epoch_of x) = Some (Some (UpgradeReadyError v))"
      "swap_error (machine_epoch_of x) = None"
      by (simp_all add: machine_epoch_of_def)
    from agent_loop_upgrade [OF assms this, of "''machine agent''" "''machine''"
        "map machine_epoch_of xs"]
    have loop: "fst (agent_loop ''machine agent'' ''machine'' (map machine_epoch_of (x # xs)) ls) =
        Some (Some (UpgradeReadyError v))"
      "attempts (snd (agent_loop ''machine agent'' ''machine'' (map machine_epoch_of (x # xs)) ls)) =
        Suc (attempts ls)"
      "current_tools (snd (agent_loop ''machine agent'' ''machine'' (map machine_epoch_of (x # xs)) ls)) = v"
      "swaps (snd (agent_loop ''machine agent'' ''machine'' (map machine_epoch_of (x # xs)) ls)) =
        Suc (swaps ls)"
      by simp_all
    from MachineAgent_Run_returns [OF loop(1)] loop(2-4) show ?thesis
      by simp
  qed
  have d: "agentDone (Some (UpgradeReadyError v)) ep ls =
      (ls\<lparr>current_tools := v, swaps := Suc (swaps ls)\<rparr>, Some (UpgradeReadyError v))"
    if "swap_error ep = None"
    using that by (simp add: agentDone_def ChangeAgentTools_def)
  from l m d show ?thesis by blast
qed

theorem upgrade_swaps_and_returns_witness:
  "tomb_Err (atomb loop0) = Some ErrStillAlive \<and>
   fst (RunLoop conf0 ''machine-0'' [upgrade_circumstances, boom_circumstances] loop0) =
     Some (Some (UpgradeReadyError ''1.2.3'')) \<and>
   swaps (snd (RunLoop conf0 ''machine-0'' [upgrade_circumstances, boom_circumstances] loop0)) = Suc 0 \<and>
   current_tools (snd (RunLoop conf0 ''machine-0'' [upgrade_circumstances, boom_circumstances] loop0)) =
     ''1.2.3'' \<and>
   attempts (snd (RunLoop conf0 ''machine-0'' [upgrade_circumstances, boom_circumstances] loop0)) = Suc 0 \<and>
   fst (MachineAgent_Run None [upgrade_machine, boom_machine] loop0) =
     Some (Some (UpgradeReadyError ''1.2.3'')) \<and>
   current_tools (snd (MachineAgent_Run None [upgrade_machine, boom_machine] loop0)) = ''1.2.3''"
proof -
  have t: "tomb_Err (atomb loop0) = Some ErrStillAlive"
    by (simp add: loop0_def new_tomb_def tomb_Err_def)
  have l: "snd (runOnce conf0 ''machine-0'' (found upgrade_circumstances)) =
      Some (Some (UpgradeReadyError ''1.2.3'')) \<and> tools_error upgrade_circumstances = None"
    by (simp add: upgrade_circumstances_def runOnce_world0)
  have m: "result (MachineAgent_runOnce (m_found upgrade_machine)) =
      Some (Some (UpgradeReadyError ''1.2.3'')) \<and> m_tools_error upgrade_machine = None"
    by (simp add: upgrade_machine_def MachineAgent_runOnce_world0)
  have z: "swaps loop0 = 0" "attempts loop0 = 0" by (simp_all add: loop0_def)
  from upgrade_swaps_and_returns [OF t, of conf0 "''machine-0''" upgrade_circumstances "''1.2.3''"
      "[boom_circumstances]" upgrade_machine "[boom_machine]"] t l m z
  show ?thesis by simp
qed

text \<open>
  C9. While the tomb is alive and every epoch ends with no error or with an error that
  is neither an upgrade nor \<open>ErrDead\<close>, and the agent is not asked to stop, the loop
  does not return however many epochs pass: each epoch is one attempt, sleeps one
  retry delay, and logs its lines, the error of the epoch among them (the start, what
  \<open>runOnce\<close> logs, the error, the rerun). The sleep is interruptible: in the epoch during
  which the agent is asked to stop, the error is logged, the delay is not slept, and
  the loop returns the error of that epoch. This holds of \<open>RunLoop\<close> and of
  \<open>MachineAgent.Run\<close>, which logs its exit as well.
\<close>

theorem mundane_errors_keep_retrying:
  assumes "tomb_Err (atomb ls) = Some ErrStillAlive" and "\<not> dying (atomb ls)"
  shows
    "((\<forall>y\<in>set ys. mundane (epoch_of c n y)) \<longrightarrow>
        fst (RunLoop c n ys ls) = None \<and>
        attempts (snd (RunLoop c n ys ls)) = attempts ls + length ys \<and>
        sleeps (snd (RunLoop c n ys ls)) = sleeps ls + length ys \<and>
        logs (snd (RunLoop c n ys ls)) =
          logs ls @ concat (map (epoch_lines ''agent'') (map (epoch_of c n) ys)) \<and>
        (\<forall>y\<in>set ys. \<forall>e. once (epoch_of c n y) = Some e \<longrightarrow>
           outcome_line e \<in> set (logs (snd (RunLoop c n ys ls))))) \<and>
     ((\<forall>x\<in>set xs. mundane (machine_epoch_of x)) \<longrightarrow>
        fst (MachineAgent_Run None xs ls) = None \<and>
        attempts (snd (MachineAgent_Run None xs ls)) = attempts ls + length xs \<and>
        sleeps (snd (MachineAgent_Run None xs ls)) = sleeps ls + length xs \<and>
        logs (snd (MachineAgent_Run None xs ls)) =
          logs ls @ concat (map (epoch_lines ''machine agent'') (map machine_epoch_of xs)) \<and>
        (\<forall>x\<in>set xs. \<forall>e. once (machine_epoch_of x) = Some e \<longrightarrow>
           outcome_line e \<in> set (logs (snd (MachineAgent_Run None xs ls))))) \<and>
     ((\<forall>y\<in>set ys. mundane (epoch_of c n y)) \<and> once (epoch_of c n z) = Some e \<and>
      \<not> isUpgraded e \<and> e \<noteq> Some ErrDead \<and> e \<noteq> Some ErrStillAlive \<and> stopped z \<longrightarrow>
        fst (RunLoop c n (ys @ z # zs) ls) = Some e \<and>
        attempts (snd (RunLoop c n (ys @ z # zs) ls)) = Suc (attempts ls + length ys) \<and>
        sleeps (snd (RunLoop c n (ys @ z # zs) ls)) = sleeps ls + length ys \<and>
        logs (snd (RunLoop c n (ys @ z # zs) ls)) =
          logs ls @ concat (map (epoch_lines ''agent'') (map (epoch_of c n) ys)) @
            interrupted_lines ''agent'' (epoch_of c n z)) \<and>
     ((\<forall>x\<in>set xs. mundane (machine_epoch_of x)) \<and> once (machine_epoch_of u) = Some e \<and>
      \<not> isUpgraded e \<and> e \<noteq> Some ErrDead \<and> e \<noteq> Some ErrStillAlive \<and> m_stopped u \<longrightarrow>
        fst (MachineAgent_Run None (xs @ u # us) ls) = Some e \<and>
        attempts (snd (MachineAgent_Run None (xs @ u # us) ls)) = Suc (attempts ls + length xs) \<and>
        sleeps (snd (MachineAgent_Run None (xs @ u # us) ls)) = sleeps ls + length xs \<and>
        logs (snd (MachineAgent_Run None (xs @ u # us) ls)) =
          logs ls @ concat (map (epoch_lines ''machine agent'') (map machine_epoch_of xs)) @
            interrupted_lines ''machine agent'' (machine_epoch_of u) @
            [''cmd/jujud: machine agent exiting''])"
proof -
  have mem: "outcome_line e' \<in> set (pre @ concat (map (epoch_lines who) eps))"
    if "ep \<in> set eps" "once ep = Some e'" for e' ep eps who pre
    using that outcome_in_epoch_lines [of ep e' who] by auto
  have l: "fst (RunLoop c n ys ls) = None \<and>
      attempts (snd (RunLoop c n ys ls)) = attempts ls + length ys \<and>
      sleeps (snd (RunLoop c n ys ls)) = sleeps ls + length ys \<and>
      logs (snd (RunLoop c n ys ls)) =
        logs ls @ concat (map (epoch_lines ''agent'') (map (epoch_of c n) ys)) \<and>
      (\<forall>y\<in>set ys. \<forall>e. once (epoch_of c n y) = Some e \<longrightarrow>
         outcome_line e \<in> set (logs (snd (RunLoop c n ys ls))))"
    if "\<forall>y\<in>set ys. mundane (epoch_of c n y)"
  proof -
    from that have "\<forall>ep\<in>set (map (epoch_of c n) ys). mundane ep" by simp
    from agent_loop_retries [OF this assms, of "''agent''" "''agent''"]
    have r: "fst (RunLoop c n ys ls) = None"
      "attempts (snd (RunLoop c n ys ls)) = attempts ls + length ys"
      "sleeps (snd (RunLoop c n ys ls)) = sleeps ls + length ys"
      "logs (snd (RunLoop c n ys ls)) =
        logs ls @ concat (map (epoch_lines ''agent'') (map (epoch_of c n) ys))"
      by (simp_all add: RunLoop_def)
    have "outcome_line e' \<in> set (logs (snd (RunLoop c n ys ls)))"
      if "y \<in> set ys" "once (epoch_of c n y) = Some e'" for y e'
      unfolding r(4) using that by (intro mem [of "epoch_of c n y"]) simp_all
    with r show ?thesis by blast
  qed
  have m: "fst (MachineAgent_Run None xs ls) = None \<and>
      attempts (snd (MachineAgent_Run None xs ls)) = attempts ls + length xs \<and>
      sleeps (snd (MachineAgent_Run None xs ls)) = sleeps ls + length xs \<and>
      logs (snd (MachineAgent_Run None xs ls)) =
        logs ls @ concat (map (epoch_lines ''machine agent'') (map machine_epoch_of xs)) \<and>
      (\<forall>x\<in>set xs. \<forall>e. once (machine_epoch_of x) = Some e \<longrightarrow>
         outcome_line e \<in> set (logs (snd (MachineAgent_Run None xs ls))))"
    if "\<forall>x\<in>set xs. mundane (machine_epoch_of x)"
  proof -
    from that have "\<forall>ep\<in>set (map machine_epoch_of xs). mundane ep" by simp
    from agent_loop_retries [OF this assms, of "''machine agent''" "''machine''"]
    have loop: "fst (agent_loop ''machine agent'' ''machine'' (map machine_epoch_of xs) ls) = None"
      "attempts (snd (agent_loop ''machine agent'' ''machine'' (map machine_epoch_of xs) ls)) =
        attempts ls + length xs"
      "sleeps (snd (agent_loop ''machine agent'' ''machine'' (map machine_epoch_of xs) ls)) =
        sleeps ls + length xs"
      "logs (snd (agent_loop ''machine agent'' ''machine'' (map machine_epoch_of xs) ls)) =
        logs ls @ concat (map (epoch_lines ''machine agent'') (map machine_epoch_of xs))"
      by simp_all
    note run = MachineAgent_Run_running [OF loop(1)]
    have r: "fst (MachineAgent_Run None xs ls) = None"
      "attempts (snd (MachineAgent_Run None xs ls)) = attempts ls + length xs"
      "sleeps (snd (MachineAgent_Run None xs ls)) = sleeps ls + length xs"
      "logs (snd (MachineAgent_Run None xs ls)) =
        logs ls @ concat (map (epoch_lines ''machine agent'') (map machine_epoch_of xs))"
      unfolding run using loop by simp_all
    have "outcome_line e' \<in> set (logs (snd (MachineAgent_Run None xs ls)))"
      if "x \<in> set xs" "once (machine_epoch_of x) = Some e'" for x e'
      unfolding r(4) using that by (intro mem [of "machine_epoch_of x"]) simp_all
    with r show ?thesis by blast
  qed
  have i: "fst (RunLoop c n (ys @ z # zs) ls) = Some e \<and>
      attempts (snd (RunLoop c n (ys @ z # zs) ls)) = Suc (attempts ls + length ys) \<and>
      sleeps (snd (RunLoop c n (ys @ z # zs) ls)) = sleeps ls + length ys \<and>
      logs (snd (RunLoop c n (ys @ z # zs) ls)) =
        logs ls @ concat (map (epoch_lines ''agent'') (map (epoch_of c n) ys)) @
          interrupted_lines ''agent'' (epoch_of c n z)"
    if "\<forall>y\<in>set ys. mundane (epoch_of c n y)" "once (epoch_of c n z) = Some e"
      "\<not> isUpgraded e" "e \<noteq> Some ErrDead" "e \<noteq> Some ErrStillAlive" "stopped z"
  proof -
    from that(1) have all: "\<forall>ep\<in>set (map (epoch_of c n) ys). mundane ep" by simp
    from that(6) have "stop_requested (epoch_of c n z)" by (simp add: epoch_of_def)
    from agent_loop_retries_interrupted [OF all assms that(2-5) this,
        of "''agent''" "''agent''" "map (epoch_of c n) zs"]
    show ?thesis by (simp add: RunLoop_def)
  qed
  have j: "fst (MachineAgent_Run None (xs @ u # us) ls) = Some e \<and>
      attempts (snd (MachineAgent_Run None (xs @ u # us) ls)) = Suc (attempts ls + length xs) \<and>
      sleeps (snd (MachineAgent_Run None (xs @ u # us) ls)) = sleeps ls + length xs \<and>
      logs (snd (MachineAgent_Run None (xs @ u # us) ls)) =
        logs ls @ concat (map (epoch_lines ''machine agent'') (map machine_epoch_of xs)) @
          interrupted_lines ''machine agent'' (machine_epoch_of u) @
          [''cmd/jujud: machine agent exiting'']"
    if "\<forall>x\<in>set xs. mundane (machine_epoch_of x)" "once (machine_epoch_of u) = Some e"
      "\<not> isUpgraded e" "e \<noteq> Some ErrDead" "e \<noteq> Some ErrStillAlive" "m_stopped u"
  proof -
    from that(1) have all: "\<forall>ep\<in>set (map machine_epoch_of xs). mundane ep" by simp
    from that(6) have "stop_requested (machine_epoch_of u)" by (simp add: machine_epoch_of_def)
    from agent_loop_retries_interrupted [OF all assms that(2-5) this,
        of "''machine agent''" "''machine''" "map machine_epoch_of us"]
    have loop: "fst (agent_loop ''machine agent'' ''machine''
          (map machine_epoch_of (xs @ u # us)) ls) = Some e"
      "attempts (snd (agent_loop ''machine agent'' ''machine''
          (map machine_epoch_of (xs @ u # us)) ls)) = Suc (attempts ls + length xs)"
      "sleeps (snd (agent_loop ''machine agent'' ''machine''
          (map machine_epoch_of (xs @ u # us)) ls)) = sleeps ls + length xs"
      "logs (snd (agent_loop ''machine agent'' ''machine''
          (map machine_epoch_of (xs @ u # us)) ls)) =
        logs ls @ concat (map (epoch_lines ''machine agent'') (map machine_epoch_of xs)) @
          interrupted_lines ''machine agent'' (machine_epoch_of u)"
      by simp_all
    from MachineAgent_Run_returns [OF loop(1)] loop(2-4) show ?thesis by simp
  qed
  from l m i j show ?thesis by blast
qed

theorem mundane_errors_keep_retrying_witness:
  "tomb_Err (atomb loop0) = Some ErrStillAlive \<and> \<not> dying (atomb loop0) \<and>
   mundane (epoch_of conf0 ''machine-0'' boom_circumstances) \<and>
   fst (RunLoop conf0 ''machine-0'' [boom_circumstances, boom_circumstances, boom_circumstances] loop0) =
     None \<and>
   attempts (snd (RunLoop conf0 ''machine-0''
     [boom_circumstances, boom_circumstances, boom_circumstances] loop0)) = 3 \<and>
   sleeps (snd (RunLoop conf0 ''machine-0''
     [boom_circumstances, boom_circumstances, boom_circumstances] loop0)) = 3 \<and>
   mundane (machine_epoch_of boom_machine) \<and>
   fst (MachineAgent_Run None [boom_machine, boom_machine] loop0) = None \<and>
   attempts (snd (MachineAgent_Run None [boom_machine, boom_machine] loop0)) = 2 \<and>
   logs (snd (MachineAgent_Run None [boom_machine] loop0)) =
     [''cmd/jujud: machine agent starting'',
      ''cmd/jujud: running jobs for machine agent: [JobHostUnits]'',
      ''cmd/jujud: boom'', ''cmd/jujud: rerunning machiner''] \<and>
   fst (RunLoop conf0 ''machine-0'' ([boom_circumstances] @ stop_circumstances # [boom_circumstances])
     loop0) = Some (Some (Errorf ''boom'')) \<and>
   sleeps (snd (RunLoop conf0 ''machine-0''
     ([boom_circumstances] @ stop_circumstances # [boom_circumstances]) loop0)) = 1 \<and>
   fst (MachineAgent_Run None ([boom_machine] @ stop_machine # [boom_machine]) loop0) =
     Some (Some (Errorf ''boom'')) \<and>
   logs (snd (MachineAgent_Run None ([] @ stop_machine # [boom_machine]) loop0)) =
     [''cmd/jujud: machine agent starting'',
      ''cmd/jujud: running jobs for machine agent: [JobHostUnits]'',
      ''cmd/jujud: boom'', ''cmd/jujud: machine agent exiting'']"
proof -
  have t: "tomb_Err (atomb loop0) = Some ErrStillAlive" "\<not> dying (atomb loop0)"
    by (simp_all add: loop0_def new_tomb_def tomb_Err_def)
  have b: "mundane (epoch_of conf0 ''machine-0'' boom_circumstances)"
    by (simp add: mundane_def epoch_of_def boom_circumstances_def runOnce_world0)
  have bm: "mundane (machine_epoch_of boom_machine)"
    by (simp add: mundane_def machine_epoch_of_def boom_machine_def MachineAgent_runOnce_world0)
  have s: "once (epoch_of conf0 ''machine-0'' stop_circumstances) = Some (Some (Errorf ''boom'')) \<and>
      stopped stop_circumstances"
    by (simp add: epoch_of_def stop_circumstances_def runOnce_world0)
  have sm: "once (machine_epoch_of stop_machine) = Some (Some (Errorf ''boom'')) \<and>
      m_stopped stop_machine"
    by (simp add: machine_epoch_of_def stop_machine_def MachineAgent_runOnce_world0)
  have lines: "epoch_lines ''machine agent'' (machine_epoch_of boom_machine) =
      [''cmd/jujud: machine agent starting'',
       ''cmd/jujud: running jobs for machine agent: [JobHostUnits]'',
       ''cmd/jujud: boom'', ''cmd/jujud: rerunning machiner'']"
    "interrupted_lines ''machine agent'' (machine_epoch_of stop_machine) =
      [''cmd/jujud: machine agent starting'',
       ''cmd/jujud: running jobs for machine agent: [JobHostUnits]'',
       ''cmd/jujud: boom'']"
    by (simp_all add: epoch_lines_def interrupted_lines_def machine_epoch_of_def boom_machine_def
        stop_machine_def MachineAgent_runOnce_world0 MachineAgent_runOnce_lines0)
  have z: "attempts loop0 = 0" "sleeps loop0 = 0" "logs loop0 = []" by (simp_all add: loop0_def)
  note w1 = mundane_errors_keep_retrying [OF t,
      of "[boom_circumstances, boom_circumstances, boom_circumstances]" conf0 "''machine-0''"
        "[boom_machine, boom_machine]"]
  note w2 = mundane_errors_keep_retrying [OF t, of "[boom_circumstances]" conf0 "''machine-0''"
        "[boom_machine]" stop_circumstances "Some (Errorf ''boom'')" "[boom_circumstances]"
        stop_machine "[boom_machine]"]
  note w3 = mundane_errors_keep_retrying [OF t, of "[]" conf0 "''machine-0''"
        "[]" stop_circumstances "Some (Errorf ''boom'')" "[]" stop_machine "[boom_machine]"]
  have p1: "fst (RunLoop conf0 ''machine-0''
        [boom_circumstances, boom_circumstances, boom_circumstances] loop0) = None \<and>
      attempts (snd (RunLoop conf0 ''machine-0''
        [boom_circumstances, boom_circumstances, boom_circumstances] loop0)) = 3 \<and>
      sleeps (snd (RunLoop conf0 ''machine-0''
        [boom_circumstances, boom_circumstances, boom_circumstances] loop0)) = 3 \<and>
      fst (MachineAgent_Run None [boom_machine, boom_machine] loop0) = None \<and>
      attempts (snd (MachineAgent_Run None [boom_machine, boom_machine] loop0)) = 2"
    using w1 b bm z by simp
  have p2: "logs (snd (MachineAgent_Run None [boom_machine] loop0)) =
      [''cmd/jujud: machine agent starting'',
       ''cmd/jujud: running jobs for machine agent: [JobHostUnits]'',
       ''cmd/jujud: boom'', ''cmd/jujud: rerunning machiner''] \<and>
      fst (RunLoop conf0 ''machine-0''
        ([boom_circumstances] @ stop_circumstances # [boom_circumstances]) loop0) =
        Some (Some (Errorf ''boom'')) \<and>
      sleeps (snd (RunLoop conf0 ''machine-0''
        ([boom_circumstances] @ stop_circumstances # [boom_circumstances]) loop0)) = 1 \<and>
      fst (MachineAgent_Run None ([boom_machine] @ stop_machine # [boom_machine]) loop0) =
        Some (Some (Errorf ''boom''))"
    using w2 b bm s sm z lines by simp
  have p3: "logs (snd (MachineAgent_Run None ([] @ stop_machine # [boom_machine]) loop0)) =
      [''cmd/jujud: machine agent starting'',
       ''cmd/jujud: running jobs for machine agent: [JobHostUnits]'',
       ''cmd/jujud: boom'', ''cmd/jujud: machine agent exiting'']"
    using w3 sm z lines by simp
  from t b bm p1 p2 p3 show ?thesis by blast
qed

section \<open>Passwords\<close>

lemma openState_initial_new_secret:
  assumes "openState_initial info c w = (w1, Inr (st, pw))"
  shows "server_error w = None \<and> entity_password w = InitialPassword c \<and> random w = Inr pw \<and>
    pwfile w1 = Content pw \<and> st \<in> set (open_conns w1)"
  using assms unfolding openState_initial_def state_Open_def Let_def
  by (auto split: option.splits if_splits sum.splits)

lemma openState_new_secret:
  assumes "openState n c w = (w1, Inr (st, pw))" and "pw \<noteq> []"
  shows "server_error w = None \<and> entity_password w = InitialPassword c \<and> pwfile w1 = Content pw \<and>
    st \<in> set (open_conns w1)"
proof (cases "pwfile w")
  case NotExist
  then show ?thesis
    using assms openState_initial_new_secret [of "(StateInfo c)\<lparr>EntityName := n\<rparr>" c w w1 st pw]
    by (simp add: openState_def)
next
  case (Content data)
  obtain x r where o: "state_Open ((StateInfo c)\<lparr>EntityName := n, Password := data\<rparr>) w = (x, r)"
    by (cases "state_Open ((StateInfo c)\<lparr>EntityName := n, Password := data\<rparr>) w") auto
  from o have same: "server_error x = server_error w" "entity_password x = entity_password w"
    by (simp_all add: state_Open_fields)
  from assms Content o have "openState_initial ((StateInfo c)\<lparr>EntityName := n\<rparr>) c x = (w1, Inr (st, pw))"
    by (cases r) (auto simp: openState_def split: if_splits)
  from openState_initial_new_secret [OF this] same show ?thesis by simp
next
  case (ReadError e)
  then show ?thesis using assms by (simp add: openState_def)
qed

lemma openState_saved_secret:
  assumes "pwfile w = Content pw" and "server_error w = None"
    and "entity_password w = InitialPassword c" and "random w = Inr pw2" and "write_error w = None"
  shows "openState n c w =
    (if pw = InitialPassword c
     then (w\<lparr>open_conns := next_conn w # open_conns w, next_conn := Suc (next_conn w),
             tried := tried w @ [pw]\<rparr>, Inr (next_conn w, []))
     else (w\<lparr>pwfile := Content pw2, open_conns := next_conn w # open_conns w,
             next_conn := Suc (next_conn w), tried := tried w @ [pw, InitialPassword c]\<rparr>,
           Inr (next_conn w, pw2)))"
  using assms by (simp add: openState_def openState_initial_def state_Open_def Let_def)

text \<open>
  C4. Let a run of \<open>openState\<close> return a new secret \<open>pw\<close>, and let the process restart
  in a world whose password file is as that run left it and whose state still holds
  the entity's previous password. If the server answers and the new random password
  can be saved, the next run succeeds: the file holds \<open>pw\<close>, \<open>state.Open\<close> is tried
  with \<open>pw\<close> first and, \<open>pw\<close> being refused, with the initial password, and the run
  returns a connection and the next new secret.
\<close>

theorem openState_survives_crash:
  assumes "openState n c w = (w1, Inr (st, pw))" and "pw \<noteq> []"
    and "pwfile w2 = pwfile w1" and "entity_password w2 = entity_password w"
    and "server_error w2 = None" and "random w2 = Inr pw2" and "write_error w2 = None"
  shows "pwfile w2 = Content pw \<and>
    snd (openState n c w2) = Inr (next_conn w2, if pw = InitialPassword c then [] else pw2) \<and>
    tried (fst (openState n c w2)) =
      tried w2 @ (if pw = InitialPassword c then [pw] else [pw, InitialPassword c]) \<and>
    next_conn w2 \<in> set (open_conns (fst (openState n c w2)))"
proof -
  from openState_new_secret [OF assms(1,2)] assms(3,4)
  have f: "pwfile w2 = Content pw" and i: "entity_password w2 = InitialPassword c"
    by simp_all
  from openState_saved_secret [OF f assms(5) i assms(6,7), of n] f
  show ?thesis by simp
qed

theorem openState_survives_crash_witness:
  "openState ''machine-0'' conf0 world0 =
     (fst (openState ''machine-0'' conf0 world0), Inr (0, ''secret1'')) \<and>
   pwfile world_after_crash = Content ''secret1'' \<and>
   entity_password world_after_crash = ''initial'' \<and>
   snd (openState ''machine-0'' conf0 world_after_crash) = Inr (1, ''secret2'') \<and>
   tried (fst (openState ''machine-0'' conf0 world_after_crash)) =
     [''initial'', ''secret1'', ''initial'']"
proof -
  let ?w1 = "fst (openState ''machine-0'' conf0 world0)"
  have first: "openState ''machine-0'' conf0 world0 = (?w1, Inr (0, ''secret1''))"
    by (simp add: openState_def openState_initial_def state_Open_def conf0_def world0_def Let_def)
  have w1: "?w1 = world0\<lparr>pwfile := Content ''secret1'', open_conns := [0], next_conn := Suc 0,
      tried := [''initial'']\<rparr>"
    by (simp add: openState_def openState_initial_def state_Open_def conf0_def world0_def Let_def)
  have ne: "''secret1'' \<noteq> ([]::string)" by simp
  have crash: "pwfile world_after_crash = pwfile ?w1"
    "entity_password world_after_crash = entity_password world0"
    "server_error world_after_crash = None" "random world_after_crash = Inr ''secret2''"
    "write_error world_after_crash = None"
    unfolding world_after_crash_def w1 by (simp_all add: world0_def)
  have more: "next_conn world_after_crash = 1" "tried world_after_crash = [''initial'']"
    "entity_password world0 = ''initial''" "InitialPassword conf0 = ''initial''"
    unfolding world_after_crash_def w1 by (simp_all add: world0_def conf0_def)
  from openState_survives_crash [OF first ne crash] first crash(2) more
  show ?thesis by simp
qed

text \<open>
  The new secret is saved before \<open>openState\<close> returns it, and when the file cannot be
  written the connection is closed and an error returned.
\<close>

lemma openState_initial_saves_or_closes:
  assumes "state_Open (info\<lparr>Password := InitialPassword c\<rparr>) w = (w1, Inr st)"
    and "random w = Inr pw"
  shows "write_error w = None \<longrightarrow>
      openState_initial info c w = (w1\<lparr>pwfile := Content pw\<rparr>, Inr (st, pw))"
    and "write_error w = Some e \<longrightarrow>
      openState_initial info c w =
        (Close st w1, Inl (Errorf (''cannot save password: '' @ Error e))) \<and>
      st \<notin> set (open_conns (Close st w1))"
  using assms state_Open_fields [OF assms(1)]
  by (simp_all add: openState_initial_def Close_def)

text \<open>
  \<open>openAPIState\<close> writes the configuration with the new password before it returns
  the connection.
\<close>

lemma openAPIState_saves_first:
  assumes "openAPIState c w = (c1, w1, Inr (st, l))" and "Conf_Open w = Inr pw" and "pw \<noteq> []"
  shows "written w1 = Some c1 \<and> Password (Conf_StateInfo c1) = pw \<and>
    Password (Conf_APIInfo c1) = pw \<and> OldPassword c1 = Password (Conf_StateInfo c)"
  using assms
  by (auto simp: openAPIState_def dial_def Let_def split: option.splits)

text \<open>
  C5. The claim asks that the connection be closed when the new secret cannot be
  saved. In \<open>openAPIState\<close>, with a new password pending and a configuration that
  cannot be written, the error of the write is returned and no connection with it, but
  the connection that was opened is still open: the return after \<open>c1.Write()\<close> has no
  \<open>st.Close()\<close>, which the return after the entity's error, three statements above,
  has.
\<close>

theorem openAPIState_write_failure_leaves_connection_open:
  "Conf_Open agent_world0 = Inr ''secret1'' \<and>
   Conf_Write_error agent_world0 = Some (Errorf ''disk full'') \<and>
   openAPIState agent_conf0 agent_world0 =
     (agent_conf0, agent_world0\<lparr>conns := [0], fresh := Suc 0\<rparr>, Inl (Errorf ''disk full'')) \<and>
   0 \<in> set (conns (fst (snd (openAPIState agent_conf0 agent_world0))))"
  by (simp add: openAPIState_def dial_def entity_error_def agent_world0_def Let_def)

section \<open>The provisioner\<close>

lemma start_one_fields:
  "config_valid (start_one m cl) = config_valid cl"
  "start_failing (start_one m cl) = start_failing cl"
  "stop_failing (start_one m cl) = stop_failing cl"
  "next_id (start_one m cl) = Suc (next_id cl)"
  "instances (start_one m cl) = instances cl @ [\<lparr>i_id = next_id cl, i_tag = m_id m\<rparr>]"
  "ops (start_one m cl) = ops cl @ [OpStartInstance (m_id m) (next_id cl)]"
  "machines (start_one m cl) =
     map (\<lambda>r. if m_id r = m_id m then r\<lparr>m_instance := Some (next_id cl)\<rparr> else r) (machines cl)"
  by (simp_all add: start_one_def SetInstanceId_def)

lemma startMachines_step:
  "start_failing cl = [] \<Longrightarrow>
   startMachines (m # ms) (ctl, cl) = startMachines ms (ctl, start_one m cl)"
  by (simp add: StartInstance_def start_one_def)

declare startMachines.simps(2) [simp del]

lemma startMachines_frame:
  "start_failing cl = [] \<Longrightarrow>
   fst (startMachines ms (ctl, cl)) = ctl \<and>
   config_valid (snd (startMachines ms (ctl, cl))) = config_valid cl \<and>
   start_failing (snd (startMachines ms (ctl, cl))) = [] \<and>
   stop_failing (snd (startMachines ms (ctl, cl))) = stop_failing cl \<and>
   next_id (snd (startMachines ms (ctl, cl))) = next_id cl + length ms"
proof (induction ms arbitrary: cl)
  case Nil
  then show ?case by simp
next
  case (Cons m ms)
  have "start_failing (start_one m cl) = []"
    using Cons.prems by (simp add: start_one_fields)
  from Cons.IH [OF this] show ?case
    using Cons.prems by (simp add: startMachines_step start_one_fields)
qed

lemma startMachines_untouched:
  assumes "start_failing cl = []" and "m_id r \<notin> m_id ` set ms"
  shows "r \<in> set (machines (snd (startMachines ms (ctl, cl)))) \<longleftrightarrow> r \<in> set (machines cl)"
  using assms
proof (induction ms arbitrary: cl)
  case Nil
  then show ?case by simp
next
  case (Cons m ms)
  have sf: "start_failing (start_one m cl) = []"
    using Cons.prems by (simp add: start_one_fields)
  from Cons.prems(2) have ne: "m_id r \<noteq> m_id m" and notin: "m_id r \<notin> m_id ` set ms"
    by auto
  have "r \<in> set (machines (start_one m cl)) \<longleftrightarrow> r \<in> set (machines cl)"
    using ne by (auto simp: start_one_fields)
  with Cons.IH [OF sf notin] show ?case
    using Cons.prems(1) by (simp add: startMachines_step)
qed

lemma startMachines_instances_mono:
  assumes "start_failing cl = []"
  shows "set (instances cl) \<subseteq> set (instances (snd (startMachines ms (ctl, cl))))"
  using assms
proof (induction ms arbitrary: cl)
  case Nil
  then show ?case by simp
next
  case (Cons m ms)
  have sf: "start_failing (start_one m cl) = []"
    using Cons.prems by (simp add: start_one_fields)
  from Cons.IH [OF sf] show ?case
    using Cons.prems by (auto simp: startMachines_step start_one_fields)
qed

lemma startMachines_provisioned:
  assumes "start_failing cl = []"
    and "r \<in> set (machines (snd (startMachines ms (ctl, cl))))" and "m_id r \<in> m_id ` set ms"
  shows "\<exists>k\<ge>next_id cl. m_instance r = Some k \<and>
    \<lparr>i_id = k, i_tag = m_id r\<rparr> \<in> set (instances (snd (startMachines ms (ctl, cl))))"
  using assms
proof (induction ms arbitrary: cl)
  case Nil
  then show ?case by simp
next
  case (Cons m ms)
  have sf: "start_failing (start_one m cl) = []"
    using Cons.prems by (simp add: start_one_fields)
  have step: "startMachines (m # ms) (ctl, cl) = startMachines ms (ctl, start_one m cl)"
    using Cons.prems(1) by (rule startMachines_step)
  show ?case
  proof (cases "m_id r \<in> m_id ` set ms")
    case True
    from Cons.IH [OF sf _ True] Cons.prems(2) step
    show ?thesis by (auto simp: start_one_fields)
  next
    case False
    with Cons.prems(3) have eq: "m_id r = m_id m" by auto
    from Cons.prems(2) step startMachines_untouched [OF sf False]
    have "r \<in> set (machines (start_one m cl))" by simp
    then have inst: "m_instance r = Some (next_id cl)"
      using eq by (auto simp: start_one_fields)
    have "\<lparr>i_id = next_id cl, i_tag = m_id r\<rparr> \<in> set (instances (start_one m cl))"
      using eq by (simp add: start_one_fields)
    then have "\<lparr>i_id = next_id cl, i_tag = m_id r\<rparr> \<in> set (instances (snd (startMachines (m # ms) (ctl, cl))))"
      using startMachines_instances_mono [OF sf, of ms ctl] step by auto
    with inst show ?thesis by auto
  qed
qed

lemma startMachines_new_instances:
  assumes "start_failing cl = []" and "distinct (map m_id ms)"
    and "\<forall>m\<in>set ms. \<exists>r\<in>set (machines cl). m_id r = m_id m \<and> m_life r \<noteq> Dead"
    and "i \<in> set (instances (snd (startMachines ms (ctl, cl))))"
  shows "i \<in> set (instances cl) \<or>
    (next_id cl \<le> i_id i \<and>
     (\<exists>r\<in>set (machines (snd (startMachines ms (ctl, cl)))).
        m_instance r = Some (i_id i) \<and> m_life r \<noteq> Dead))"
  using assms
proof (induction ms arbitrary: cl)
  case Nil
  then show ?case by simp
next
  case (Cons m ms)
  let ?c = "start_one m cl"
  have sf: "start_failing ?c = []"
    using Cons.prems by (simp add: start_one_fields)
  have step: "startMachines (m # ms) (ctl, cl) = startMachines ms (ctl, ?c)"
    using Cons.prems(1) by (rule startMachines_step)
  have d: "distinct (map m_id ms)" and notin: "m_id m \<notin> m_id ` set ms"
    using Cons.prems(2) by auto
  have ex: "\<forall>m'\<in>set ms. \<exists>r\<in>set (machines ?c). m_id r = m_id m' \<and> m_life r \<noteq> Dead"
  proof
    fix m' assume "m' \<in> set ms"
    with Cons.prems(3) obtain r where r: "r \<in> set (machines cl)" "m_id r = m_id m'" "m_life r \<noteq> Dead"
      by auto
    let ?r = "if m_id r = m_id m then r\<lparr>m_instance := Some (next_id cl)\<rparr> else r"
    have "?r \<in> set (machines ?c)" using r(1) by (auto simp: start_one_fields)
    moreover have "m_id ?r = m_id m'" "m_life ?r \<noteq> Dead" using r by auto
    ultimately show "\<exists>r\<in>set (machines ?c). m_id r = m_id m' \<and> m_life r \<noteq> Dead" by blast
  qed
  from Cons.prems(4) step have i: "i \<in> set (instances (snd (startMachines ms (ctl, ?c))))"
    by simp
  from Cons.IH [OF sf d ex i]
  consider "i \<in> set (instances cl)" | "i = \<lparr>i_id = next_id cl, i_tag = m_id m\<rparr>"
    | "next_id ?c \<le> i_id i"
      "\<exists>r\<in>set (machines (snd (startMachines ms (ctl, ?c)))). m_instance r = Some (i_id i) \<and> m_life r \<noteq> Dead"
    by (auto simp: start_one_fields)
  then show ?case
  proof cases
    case 1
    then show ?thesis by simp
  next
    case 2
    from Cons.prems(3) obtain r where r: "r \<in> set (machines cl)" "m_id r = m_id m" "m_life r \<noteq> Dead"
      by auto
    let ?r = "r\<lparr>m_instance := Some (next_id cl)\<rparr>"
    have "?r \<in> set (machines ?c)" using r by (force simp: start_one_fields)
    moreover have "m_id ?r \<notin> m_id ` set ms" using r notin by simp
    ultimately have "?r \<in> set (machines (snd (startMachines ms (ctl, ?c))))"
      using startMachines_untouched [OF sf, of ?r ms ctl] by simp
    then show ?thesis using 2 r step by (intro disjI2) (auto intro!: bexI [of _ ?r])
  next
    case 3
    then show ?thesis using step by (auto simp: start_one_fields)
  qed
qed

lemma started_for_append:
  "started_for m (xs @ ys) = started_for m xs + started_for m ys"
  by (simp add: started_for_def)

lemma startMachines_ops:
  assumes "start_failing cl = []"
  shows "started_for M (ops (snd (startMachines ms (ctl, cl)))) =
    started_for M (ops cl) + count_list (map m_id ms) M"
  using assms
proof (induction ms arbitrary: cl)
  case Nil
  then show ?case by simp
next
  case (Cons m ms)
  have sf: "start_failing (start_one m cl) = []"
    using Cons.prems by (simp add: start_one_fields)
  from Cons.IH [OF sf] show ?case
    using Cons.prems
    by (auto simp: startMachines_step start_one_fields started_for_append) (simp_all add: started_for_def)
qed


lemma reconcile_pass:
  assumes "start_failing cl = []" and "\<not> stop_failing cl" and "config_valid cl"
  shows "snd (reconcile ctl cl) =
    (let cl1 = snd (startMachines (toStart cl)
                      (ctl, cl))
     in if toStop cl = [] then cl1
        else cl1\<lparr>instances := filter (\<lambda>i. i_id i \<notin> set (map i_id (toStop cl))) (instances cl1),
                 ops := ops cl1 @ [OpStopInstances (map i_id (toStop cl))]\<rparr>)"
proof -
  let ?ctl = "ctl"
  obtain c1 cl1 where s: "startMachines (toStart cl) (?ctl, cl) = (c1, cl1)"
    by (cases "startMachines (toStart cl) (?ctl, cl)") auto
  have "stop_failing cl1 = stop_failing cl"
    using startMachines_frame [OF assms(1), of "toStart cl" ?ctl] s by simp
  with assms(2) have nf: "\<not> stop_failing cl1" by simp
  show ?thesis
    using s nf assms(3) unfolding reconcile_def Let_def stopInstances_def StopInstances_def
    by (simp del: startMachines.simps split: if_splits)
qed

lemma toStart_ids:
  assumes "distinct (map m_id (machines cl))"
  shows "distinct (map m_id (toStart cl))"
  using assms by (simp add: toStart_def distinct_map_filter)

lemma provisioned_not_started:
  assumes "distinct (map m_id (machines cl))" and "r \<in> set (machines cl)" and "\<not> unprovisioned r"
  shows "m_id r \<notin> m_id ` set (toStart cl)"
proof
  assume "m_id r \<in> m_id ` set (toStart cl)"
  then obtain r' where r': "r' \<in> set (machines cl)" "unprovisioned r'" "m_id r' = m_id r"
    by (auto simp: toStart_def)
  from assms(1) have "inj_on m_id (set (machines cl))" by (simp add: distinct_map)
  with r' assms(2) have "r' = r" by (auto dest: inj_onD)
  with r'(2) assms(3) show False by simp
qed

lemma toStart_after_start:
  assumes "start_failing cl = []"
  shows "toStart (snd (startMachines (toStart cl) (ctl, cl))) = []"
proof -
  let ?cl1 = "snd (startMachines (toStart cl) (ctl, cl))"
  have "\<not> unprovisioned r" if r: "r \<in> set (machines ?cl1)" for r
  proof (cases "m_id r \<in> m_id ` set (toStart cl)")
    case True
    from startMachines_provisioned [OF assms r True] show ?thesis
      by (auto simp: unprovisioned_def)
  next
    case False
    from r startMachines_untouched [OF assms False, of ctl] have "r \<in> set (machines cl)" by simp
    with False show ?thesis by (auto simp: toStart_def)
  qed
  then show ?thesis by (auto simp: toStart_def filter_empty_conv)
qed

lemma known_after_start:
  assumes "start_failing cl = []" and "distinct (map m_id (machines cl))" and "known cl i"
  shows "known (snd (startMachines (toStart cl) (ctl, cl))) i"
proof -
  from assms(3) obtain r where r: "r \<in> set (machines cl)" "m_instance r = Some (i_id i)"
    "m_life r \<noteq> Dead"
    by (auto simp: known_def list_ex_iff)
  then have "\<not> unprovisioned r" by (simp add: unprovisioned_def)
  from provisioned_not_started [OF assms(2) r(1) this]
  have "r \<in> set (machines (snd (startMachines (toStart cl) (ctl, cl))))"
    using startMachines_untouched [OF assms(1), of r "toStart cl" ctl] r(1) by simp
  with r show ?thesis by (auto simp: known_def list_ex_iff)
qed

lemma instances_after_start:
  assumes "start_failing cl = []" and "distinct (map m_id (machines cl))"
    and "i \<in> set (instances (snd (startMachines (toStart cl) (ctl, cl))))"
  shows "i \<in> set (instances cl) \<or>
    (next_id cl \<le> i_id i \<and> known (snd (startMachines (toStart cl) (ctl, cl))) i)"
proof -
  have ex: "\<forall>m\<in>set (toStart cl). \<exists>r\<in>set (machines cl). m_id r = m_id m \<and> m_life r \<noteq> Dead"
    by (auto simp: toStart_def unprovisioned_def)
  from startMachines_new_instances [OF assms(1) toStart_ids [OF assms(2)] ex assms(3)]
  show ?thesis by (auto simp: known_def list_ex_iff)
qed

lemma toStop_after_pass:
  assumes "start_failing cl = []" and "\<not> stop_failing cl" and "config_valid cl"
    and "distinct (map m_id (machines cl))" and "\<forall>i\<in>set (instances cl). i_id i < next_id cl"
  shows "toStop (snd (reconcile ctl cl)) = []"
proof -
  let ?ctl = "ctl"
  let ?cl1 = "snd (startMachines (toStart cl) (?ctl, cl))"
  let ?cl2 = "snd (reconcile ctl cl)"
  note pass = reconcile_pass [OF assms(1-3)]
  have m: "machines ?cl2 = machines ?cl1"
    unfolding pass by (simp add: Let_def)
  have sub: "set (instances ?cl2) \<subseteq> set (instances ?cl1)"
    unfolding pass by (auto simp: Let_def)
  have "known ?cl2 i" if i: "i \<in> set (instances ?cl2)" for i
  proof -
    from i sub have i1: "i \<in> set (instances ?cl1)" by auto
    from instances_after_start [OF assms(1,4) i1]
    have "known ?cl1 i"
    proof
      assume old: "i \<in> set (instances cl)"
      have "known cl i"
      proof (rule ccontr)
        assume "\<not> known cl i"
        with old have "i \<in> set (toStop cl)" by (simp add: toStop_def)
        then have "toStop cl \<noteq> []" "i_id i \<in> set (map i_id (toStop cl))" by auto
        with i show False unfolding pass by (simp add: Let_def)
      qed
      from known_after_start [OF assms(1,4) this] show ?thesis .
    next
      assume "next_id cl \<le> i_id i \<and> known ?cl1 i"
      then show ?thesis by simp
    qed
    with m show ?thesis by (simp add: known_def)
  qed
  then show ?thesis by (auto simp: toStop_def filter_empty_conv)
qed

lemma toStart_after_pass:
  assumes "start_failing cl = []" and "\<not> stop_failing cl" and "config_valid cl"
  shows "toStart (snd (reconcile ctl cl)) = []"
proof -
  let ?ctl = "ctl"
  have "machines (snd (reconcile ctl cl)) = machines (snd (startMachines (toStart cl) (?ctl, cl)))"
    unfolding reconcile_pass [OF assms] by (simp add: Let_def)
  then show ?thesis
    using toStart_after_start [OF assms(1), of ?ctl] by (simp add: toStart_def)
qed

lemma reconcile_nothing_to_do:
  assumes "toStart cl = []" and "toStop cl = []"
  shows "snd (reconcile ctl cl) = cl"
  using assms by (simp add: reconcile_def stopInstances_def Let_def)

lemma reconcile_frame:
  assumes "start_failing cl = []" and "\<not> stop_failing cl" and "config_valid cl"
  shows "config_valid (snd (reconcile ctl cl)) = config_valid cl \<and>
    start_failing (snd (reconcile ctl cl)) = [] \<and> \<not> stop_failing (snd (reconcile ctl cl))"
  unfolding reconcile_pass [OF assms]
  using startMachines_frame [OF assms(1)] assms(2) by (simp add: Let_def)

lemma reconcile_idempotent:
  assumes "start_failing cl = []" and "\<not> stop_failing cl" and "config_valid cl"
    and "distinct (map m_id (machines cl))" and "\<forall>i\<in>set (instances cl). i_id i < next_id cl"
  shows "snd (reconcile ctl' (snd (reconcile ctl cl))) = snd (reconcile ctl cl)"
  using toStart_after_pass [OF assms(1-3)] toStop_after_pass [OF assms]
  by (rule reconcile_nothing_to_do)

lemma startMachines_ids:
  assumes "start_failing cl = []"
  shows "map m_id (machines (snd (startMachines ms (ctl, cl)))) = map m_id (machines cl)"
  using assms
proof (induction ms arbitrary: cl)
  case Nil
  then show ?case by simp
next
  case (Cons m ms)
  have sf: "start_failing (start_one m cl) = []"
    using Cons.prems by (simp add: start_one_fields)
  have "map m_id (machines (start_one m cl)) = map m_id (machines cl)"
    by (simp add: start_one_fields comp_def cong: map_cong)
  with Cons.IH [OF sf] show ?case
    using Cons.prems by (simp add: startMachines_step)
qed

lemma count_list_distinct:
  "distinct xs \<Longrightarrow> x \<in> set xs \<Longrightarrow> count_list xs x = 1"
  by (induction xs) auto

lemma pass_starts:
  assumes "start_failing cl = []" and "\<not> stop_failing cl" and "config_valid cl"
    and "distinct (map m_id (machines cl))" and "M \<in> set (toStart cl)"
  shows "started_for (m_id M) (ops (snd (reconcile ctl cl))) = Suc (started_for (m_id M) (ops cl))"
proof -
  let ?ctl = "ctl"
  have "count_list (map m_id (toStart cl)) (m_id M) = 1"
    using toStart_ids [OF assms(4)] assms(5) by (intro count_list_distinct) auto
  with startMachines_ops [OF assms(1), of "m_id M" "toStart cl" ?ctl]
  show ?thesis
    unfolding reconcile_pass [OF assms(1-3)]
    by (simp add: Let_def started_for_append) (simp add: started_for_def)
qed

lemma pass_stops:
  assumes "start_failing cl = []" and "\<not> stop_failing cl" and "config_valid cl"
    and "X \<in> set (toStop cl)"
  shows "i_id X \<notin> i_id ` set (instances (snd (reconcile ctl cl)))"
proof -
  from assms(4) have "toStop cl \<noteq> []" "i_id X \<in> set (map i_id (toStop cl))" by auto
  then show ?thesis
    unfolding reconcile_pass [OF assms(1-3)] by (auto simp: Let_def)
qed

text \<open>
  C3. Let the provider work and the configuration be valid, let the machine records
  have distinct identifiers and the provider's next identifier be new. If an instance
  \<open>X\<close> was started for the machine \<open>M\<close> and no record holds it, while \<open>M\<close> is alive
  without an instance, then the pass of a provisioner that has just been started stops
  \<open>X\<close>, writes \<open>X\<close> on no record, and starts exactly one instance for \<open>M\<close>, another
  than \<open>X\<close>, which it records on \<open>M\<close>; and the pass of a provisioner started after that
  one changes nothing. In general, whatever provisioner made a pass, the pass of a
  provisioner started after it changes nothing: no machine is provisioned a second
  time.
\<close>

theorem restart_stops_unrecorded_instance:
  assumes "start_failing cl = []" and "\<not> stop_failing cl" and "config_valid cl"
    and "distinct (map m_id (machines cl))" and "\<forall>i\<in>set (instances cl). i_id i < next_id cl"
  shows
    "(M \<in> set (machines cl) \<and> unprovisioned M \<and> X \<in> set (instances cl) \<and> i_tag X = m_id M \<and>
      (\<forall>r\<in>set (machines cl). m_instance r \<noteq> Some (i_id X)) \<longrightarrow>
        i_id X \<notin> i_id ` set (instances (snd (reconcile NewProvisioner cl))) \<and>
        (\<forall>r\<in>set (machines (snd (reconcile NewProvisioner cl))). m_instance r \<noteq> Some (i_id X)) \<and>
        started_for (m_id M) (ops (snd (reconcile NewProvisioner cl))) =
          Suc (started_for (m_id M) (ops cl)) \<and>
        (\<exists>x. x \<noteq> i_id X \<and>
             list_ex (\<lambda>r. m_id r = m_id M \<and> m_instance r = Some x)
               (machines (snd (reconcile NewProvisioner cl))) \<and>
             \<lparr>i_id = x, i_tag = m_id M\<rparr> \<in> set (instances (snd (reconcile NewProvisioner cl))))) \<and>
     snd (reconcile NewProvisioner (snd (reconcile ctl cl))) = snd (reconcile ctl cl)"
proof -
  let ?ctl = "NewProvisioner"
  let ?cl1 = "snd (startMachines (toStart cl) (?ctl, cl))"
  let ?cl2 = "snd (reconcile NewProvisioner cl)"
  note v = assms(3)
  note pass = reconcile_pass [OF assms(1,2) v]
  have old: "i_id i < next_id cl" if "i \<in> set (toStop cl)" for i
    using that assms(5) by (simp add: toStop_def)
  have scenario: "i_id X \<notin> i_id ` set (instances ?cl2) \<and>
      (\<forall>r\<in>set (machines ?cl2). m_instance r \<noteq> Some (i_id X)) \<and>
      started_for (m_id M) (ops ?cl2) = Suc (started_for (m_id M) (ops cl)) \<and>
      (\<exists>x. x \<noteq> i_id X \<and>
           list_ex (\<lambda>r. m_id r = m_id M \<and> m_instance r = Some x) (machines ?cl2) \<and>
           \<lparr>i_id = x, i_tag = m_id M\<rparr> \<in> set (instances ?cl2))"
    if h: "M \<in> set (machines cl)" "unprovisioned M" "X \<in> set (instances cl)" "i_tag X = m_id M"
      "\<forall>r\<in>set (machines cl). m_instance r \<noteq> Some (i_id X)"
  proof -
    have X: "X \<in> set (toStop cl)"
      using h(3,5) by (auto simp: toStop_def known_def list_ex_iff)
    have M: "M \<in> set (toStart cl)"
      using h(1,2) by (simp add: toStart_def)
    have cl2: "machines ?cl2 = machines ?cl1"
      "instances ?cl2 = filter (\<lambda>i. i_id i \<notin> set (map i_id (toStop cl))) (instances ?cl1)"
      unfolding pass using X assms(3) by (auto simp: Let_def)
    have stopped: "i_id X \<notin> i_id ` set (instances ?cl2)"
      using pass_stops [OF assms(1,2) v X] .
    have not_adopted: "m_instance r \<noteq> Some (i_id X)" if r: "r \<in> set (machines ?cl2)" for r
    proof (cases "m_id r \<in> m_id ` set (toStart cl)")
      case True
      from r cl2(1) have "r \<in> set (machines ?cl1)" by simp
      from startMachines_provisioned [OF assms(1) this True] old [OF X]
      show ?thesis by auto
    next
      case False
      from r cl2(1) startMachines_untouched [OF assms(1) False, of ?ctl]
      have "r \<in> set (machines cl)" by simp
      with h(5) show ?thesis by simp
    qed
    have once: "started_for (m_id M) (ops ?cl2) = Suc (started_for (m_id M) (ops cl))"
      using pass_starts [OF assms(1,2) v assms(4) M] .
    have "m_id M \<in> set (map m_id (machines ?cl1))"
      using startMachines_ids [OF assms(1), of "toStart cl" ?ctl] h(1) by simp
    then obtain r where r: "r \<in> set (machines ?cl1)" "m_id r = m_id M" by auto
    with M have "m_id r \<in> m_id ` set (toStart cl)" by force
    from startMachines_provisioned [OF assms(1) r(1) this]
    obtain k where k: "next_id cl \<le> k" "m_instance r = Some k"
      "\<lparr>i_id = k, i_tag = m_id r\<rparr> \<in> set (instances ?cl1)"
      by auto
    have "k \<notin> set (map i_id (toStop cl))"
      using old k(1) by fastforce
    with k(3) r(2) have kept: "\<lparr>i_id = k, i_tag = m_id M\<rparr> \<in> set (instances ?cl2)"
      by (simp add: cl2(2))
    have "k \<noteq> i_id X" using old [OF X] k(1) by simp
    moreover have "list_ex (\<lambda>r. m_id r = m_id M \<and> m_instance r = Some k) (machines ?cl2)"
      using r k(2) by (auto simp: cl2(1) list_ex_iff)
    ultimately have new: "\<exists>x. x \<noteq> i_id X \<and>
        list_ex (\<lambda>r. m_id r = m_id M \<and> m_instance r = Some x) (machines ?cl2) \<and>
        \<lparr>i_id = x, i_tag = m_id M\<rparr> \<in> set (instances ?cl2)"
      using kept by blast
    from stopped not_adopted once new show ?thesis by blast
  qed
  have again: "snd (reconcile NewProvisioner (snd (reconcile ctl cl))) = snd (reconcile ctl cl)"
    using reconcile_idempotent [OF assms(1,2) v assms(4,5)] .
  from scenario again show ?thesis by blast
qed

lemma crashed_pass:
  "snd (reconcile NewProvisioner crashed_cluster) =
     crashed_cluster\<lparr>machines := [\<lparr>m_id = 0, m_life = Alive, m_instance = Some 1\<rparr>],
       instances := [\<lparr>i_id = 1, i_tag = 0\<rparr>], next_id := 2,
       ops := [OpStartInstance 0 1, OpStopInstances [0]]\<rparr>"
  by (simp add: reconcile_def NewProvisioner_def crashed_cluster_def toStart_def toStop_def
      unprovisioned_def known_def stopInstances_def StopInstances_def StartInstance_def
      SetInstanceId_def startMachines.simps Let_def)

theorem restart_stops_unrecorded_instance_witness:
  "ops (snd (reconcile NewProvisioner crashed_cluster)) = [OpStartInstance 0 1, OpStopInstances [0]] \<and>
   0 \<notin> i_id ` set (instances (snd (reconcile NewProvisioner crashed_cluster))) \<and>
   started_for 0 (ops (snd (reconcile NewProvisioner crashed_cluster))) = Suc 0 \<and>
   snd (reconcile NewProvisioner (snd (reconcile NewProvisioner crashed_cluster))) =
     snd (reconcile NewProvisioner crashed_cluster)"
proof -
  let ?M = "\<lparr>m_id = 0, m_life = Alive, m_instance = None\<rparr>"
  let ?X = "\<lparr>i_id = 0, i_tag = 0\<rparr>"
  have h: "start_failing crashed_cluster = []" "\<not> stop_failing crashed_cluster"
    "config_valid crashed_cluster" "distinct (map m_id (machines crashed_cluster))"
    "\<forall>i\<in>set (instances crashed_cluster). i_id i < next_id crashed_cluster"
    by (simp_all add: crashed_cluster_def)
  have g: "?M \<in> set (machines crashed_cluster)" "unprovisioned ?M"
    "?X \<in> set (instances crashed_cluster)" "i_tag ?X = m_id ?M"
    "\<forall>r\<in>set (machines crashed_cluster). m_instance r \<noteq> Some (i_id ?X)"
    by (simp_all add: crashed_cluster_def unprovisioned_def)
  have o: "ops crashed_cluster = []" by (simp add: crashed_cluster_def)
  from restart_stops_unrecorded_instance [OF h, of ?M ?X NewProvisioner] g o crashed_pass
  show ?thesis by (simp add: started_for_def)
qed








section \<open>\<open>cmd.Main\<close>\<close>

text \<open>
  C10. For every command and argument list, \<open>Main\<close> returns 2 when flag parsing or
  \<open>Init\<close> fails, having written the error to \<open>Stderr\<close>; 0 when parsing fails because
  help was requested, having written the help text to \<open>Stderr\<close>; 1 when \<open>Run\<close> returns
  an error; 0 when \<open>Run\<close> succeeds; and when \<open>Run\<close> returns \<open>ErrSilent\<close> it returns 1
  and adds nothing to what \<open>Run\<close> left on \<open>Stderr\<close>, nor to the log.
\<close>

theorem Main_exit_codes:
  fixes c :: "'s Command"
  shows
    "(Parse c s args = (s1, Inl e) \<and> e \<noteq> ErrHelp \<longrightarrow>
        exit_code (Main c s ctx args) = 2 \<and>
        Stderr (ctx_after (Main c s ctx args)) = Stderr ctx @ ''error: '' @ Error e @ ''\<newline>'') \<and>
     (Parse c s args = (s1, Inl ErrHelp) \<longrightarrow>
        exit_code (Main c s ctx args) = 0 \<and>
        Stderr (ctx_after (Main c s ctx args)) = Stderr ctx @ Info_Help c s1) \<and>
     (Parse c s args = (s1, Inr rest) \<and> Init c s1 rest = (s2, Some e) \<longrightarrow>
        exit_code (Main c s ctx args) = 2 \<and>
        Stderr (ctx_after (Main c s ctx args)) = Stderr ctx @ ''error: '' @ Error e @ ''\<newline>'') \<and>
     (Parse c s args = (s1, Inr rest) \<and> Init c s1 rest = (s2, None) \<and>
      Run c s2 ctx = (s3, ctx', Some e) \<longrightarrow>
        exit_code (Main c s ctx args) = 1) \<and>
     (Parse c s args = (s1, Inr rest) \<and> Init c s1 rest = (s2, None) \<and>
      Run c s2 ctx = (s3, ctx', None) \<longrightarrow>
        exit_code (Main c s ctx args) = 0 \<and> ctx_after (Main c s ctx args) = ctx') \<and>
     (Parse c s args = (s1, Inr rest) \<and> Init c s1 rest = (s2, None) \<and>
      Run c s2 ctx = (s3, ctx', Some ErrSilent) \<longrightarrow>
        exit_code (Main c s ctx args) = 1 \<and> ctx_after (Main c s ctx args) = ctx' \<and>
        logged (Main c s ctx args) = [])"
  by (simp add: Main_def Fprintf_error_def)

theorem Main_exit_codes_witness:
  "exit_code (Main demo_command False ctx0 [''--bad'']) = 2 \<and>
   Stderr (ctx_after (Main demo_command False ctx0 [''--bad''])) =
     ''error: flag provided but not defined: --bad\<newline>'' \<and>
   exit_code (Main demo_command False ctx0 [''--help'']) = 0 \<and>
   Stderr (ctx_after (Main demo_command False ctx0 [''--help''])) = ''usage: demo\<newline>'' \<and>
   exit_code (Main demo_command False ctx0 [''x'']) = 2 \<and>
   exit_code (Main demo_command False ctx0 []) = 0 \<and>
   exit_code (Main demo_command True ctx0 []) = 1 \<and>
   Stderr (ctx_after (Main demo_command True ctx0 [])) = [] \<and>
   logged (Main demo_command True ctx0 []) = []"
proof -
  have bad: "Parse demo_command False [''--bad''] =
      (False, Inl (Errorf ''flag provided but not defined: --bad''))"
    by (simp add: demo_command_def)
  have hlp: "Parse demo_command False [''--help''] = (False, Inl ErrHelp)"
    by (simp add: demo_command_def)
  have x: "Parse demo_command False [''x''] = (False, Inr [''x'']) \<and>
      Init demo_command False [''x''] = (False, Some (Errorf ''unrecognized args''))"
    by (simp add: demo_command_def)
  have ok: "Parse demo_command False [] = (False, Inr []) \<and>
      Init demo_command False [] = (False, None) \<and>
      Run demo_command False ctx0 = (False, ctx0, None)"
    by (simp add: demo_command_def)
  have silent: "Parse demo_command True [] = (True, Inr []) \<and>
      Init demo_command True [] = (True, None) \<and>
      Run demo_command True ctx0 = (True, ctx0, Some ErrSilent)"
    by (simp add: demo_command_def)
  note m1 = Main_exit_codes [of demo_command False "[''--bad'']" False
      "Errorf ''flag provided but not defined: --bad''" ctx0]
  note m2 = Main_exit_codes [of demo_command False "[''--help'']" False _ ctx0]
  note m3 = Main_exit_codes [of demo_command False "[''x'']" False
      "Errorf ''unrecognized args''" ctx0 "[''x'']" False]
  note m4 = Main_exit_codes [of demo_command False "[]" False _ ctx0 "[]" False False ctx0]
  note m5 = Main_exit_codes [of demo_command True "[]" True _ ctx0 "[]" True True ctx0]
  have help_text: "Info_Help demo_command False = ''usage: demo\<newline>''"
    by (simp add: demo_command_def)
  have "Stderr ctx0 = []"
    by (simp add: ctx0_def)
  then show ?thesis
    using m1 m2 m3 m4 m5 bad hlp x ok silent help_text by simp
qed

end
